theory Spec2Isabelle
  imports Complex_Main "HOL-Library.Word"
begin

section \<open>C integers of \<^verbatim>\<open>main.c\<close>\<close>

text \<open>
  \<^verbatim>\<open>int\<close> is 32 bits wide. Signed arithmetic whose mathematical result does not fit and
  integer division by zero are undefined in C; the model makes both a value of
  \<open>c_error\<close>, so that every arithmetic step of the source is either a result or a
  named failure. Integer division truncates towards zero.
\<close>

datatype c_error = DivByZero | SignedOverflow | FloatToIntRange

type_synonym 'a c_result = "c_error + 'a"

definition INT_MAX :: int where
  "INT_MAX = 2147483647"

definition INT_MIN :: int where
  "INT_MIN = - 2147483648"

definition c_int :: "int \<Rightarrow> int c_result" where
  "c_int x = (if INT_MIN \<le> x \<and> x \<le> INT_MAX then Inr x else Inl SignedOverflow)"

definition tdiv :: "int \<Rightarrow> int \<Rightarrow> int" where
  "tdiv a b = sgn a * sgn b * (\<bar>a\<bar> div \<bar>b\<bar>)"

definition c_add :: "int \<Rightarrow> int \<Rightarrow> int c_result" where
  "c_add a b = c_int (a + b)"

definition c_sub :: "int \<Rightarrow> int \<Rightarrow> int c_result" where
  "c_sub a b = c_int (a - b)"

definition c_mul :: "int \<Rightarrow> int \<Rightarrow> int c_result" where
  "c_mul a b = c_int (a * b)"

definition c_div :: "int \<Rightarrow> int \<Rightarrow> int c_result" where
  "c_div a b = (if b = 0 then Inl DivByZero else c_int (tdiv a b))"

definition c_bind :: "'a c_result \<Rightarrow> ('a \<Rightarrow> 'b c_result) \<Rightarrow> 'b c_result" where
  "c_bind m f = (case m of Inl e \<Rightarrow> Inl e | Inr x \<Rightarrow> f x)"

section \<open>Constants\<close>

text \<open>
  \<^verbatim>\<open>#define CYCLE_AUTOADJUST_TOLERANCE 10\<close>, \<^verbatim>\<open>#define CYCLE_AUTOADJUST_ADD 1000\<close>,
  \<^verbatim>\<open>#define FPS 60\<close>, \<^verbatim>\<open>#define TPF 1\<close>, \<^verbatim>\<open>#define TPS (FPS * TPF)\<close>.
\<close>

definition CYCLE_AUTOADJUST_TOLERANCE :: int where
  "CYCLE_AUTOADJUST_TOLERANCE = 10"

definition CYCLE_AUTOADJUST_ADD :: int where
  "CYCLE_AUTOADJUST_ADD = 1000"

definition FPS :: int where
  "FPS = 60"

definition TPF :: int where
  "TPF = 1"

definition TPS :: int where
  "TPS = FPS * TPF"

section \<open>The cycle budget of one tick (\<^verbatim>\<open>main_loop\<close>, lines 167 to 173)\<close>

text \<open>
  \<^verbatim>\<open>int dt = SDL_GetTicks() - tick_start;\<close> subtracts two \<^verbatim>\<open>uint32_t\<close> values (wrapping) and
  stores the difference in an \<^verbatim>\<open>int\<close>.
\<close>

definition elapsed_ms :: "32 word \<Rightarrow> 32 word \<Rightarrow> int" where
  "elapsed_ms now start = sint (now - start)"

text \<open>\<^verbatim>\<open>if (!dt) dt = 1;\<close>\<close>

definition clamp_dt :: "int \<Rightarrow> int" where
  "clamp_dt dt = (if dt = 0 then 1 else dt)"

text \<open>
  \<^verbatim>\<open>int cycles_per_tick = FOX32_CPU_HZ / TPS / dt;\<close>
  \<^verbatim>\<open>int extra_cycles = FOX32_CPU_HZ / TPS - (cycles_per_tick * dt);\<close>
  \<^verbatim>\<open>FOX32_CPU_HZ\<close> is defined in \<^verbatim>\<open>cpu.h\<close>; it is the parameter \<open>hz\<close>. The argument
  \<open>dt\<close> is the value of the variable after the clamp.
\<close>

definition base_budget :: "int \<Rightarrow> int \<Rightarrow> (int \<times> int) c_result" where
  "base_budget hz dt =
     c_bind (c_div hz TPS) (\<lambda>q.
     c_bind (c_div q dt) (\<lambda>cycles_per_tick.
     c_bind (c_mul cycles_per_tick dt) (\<lambda>p.
     c_bind (c_sub q p) (\<lambda>extra_cycles.
     Inr (cycles_per_tick, extra_cycles)))))"

section \<open>C \<^verbatim>\<open>float\<close>: IEEE 754 binary32, round to nearest, ties to even\<close>

text \<open>
  The adaptive budget divides in \<^verbatim>\<open>float\<close> and tests \<^verbatim>\<open>isnormal\<close>. A finite
  \<^verbatim>\<open>float\<close> is the rational number it denotes; the two infinities and NaN are values of
  their own. The two zeros are not told apart: the program only divides by a zero that
  comes from converting the \<^verbatim>\<open>int\<close> 0, which is \<open>+0\<close>, and \<open>fdiv\<close> takes a zero
  divisor to be \<open>+0\<close>.
\<close>

datatype cfloat = Finite rat | PlusInf | MinusInf | NaN

text \<open>\<open>ilog2 n\<close> is the position of the highest set bit of \<open>n \<ge> 1\<close>.\<close>

function ilog2 :: "int \<Rightarrow> int" where
  "ilog2 n = (if n < 2 then 0 else 1 + ilog2 (n div 2))"
  by pat_completeness auto
termination
  by (relation "measure nat") auto

declare ilog2.simps [simp del]

text \<open>The binary exponent of a positive rational: \<open>2 powi flog2 x \<le> x < 2 powi (flog2 x + 1)\<close>.\<close>

definition flog2 :: "rat \<Rightarrow> int" where
  "flog2 x = (let (n, d) = quotient_of x; k = ilog2 n - ilog2 d
              in if 2 powi k \<le> x then k else k - 1)"

definition round_half_even :: "rat \<Rightarrow> int" where
  "round_half_even m =
     (let f = \<lfloor>m\<rfloor>; r = m - of_int f
      in if r < 1 / 2 then f else if 1 / 2 < r then f + 1 else if even f then f else f + 1)"

text \<open>
  The spacing of binary32 numbers around a positive \<open>x\<close>: 24 significant bits, and the
  exponent of the subnormal numbers below \<open>2 powi (- 126)\<close> stays at \<open>- 126\<close>.
\<close>

definition ulp32 :: "rat \<Rightarrow> rat" where
  "ulp32 x = 2 powi (max (flog2 x) (- 126) - 23)"

definition round32_mag :: "rat \<Rightarrow> rat" where
  "round32_mag x = of_int (round_half_even (x / ulp32 x)) * ulp32 x"

definition round32 :: "rat \<Rightarrow> cfloat" where
  "round32 x =
     (if x = 0 then Finite 0
      else let v = round32_mag \<bar>x\<bar>
           in if v < 2 powi 128 then Finite (sgn x * v)
              else if 0 < x then PlusInf else MinusInf)"

text \<open>\<^verbatim>\<open>(float)i\<close> for an \<^verbatim>\<open>int\<close> \<open>i\<close>.\<close>

definition float_of_int :: "int \<Rightarrow> cfloat" where
  "float_of_int i = round32 (of_int i)"

text \<open>\<^verbatim>\<open>a / b\<close> on \<^verbatim>\<open>float\<close>.\<close>

fun fdiv :: "cfloat \<Rightarrow> cfloat \<Rightarrow> cfloat" where
  "fdiv NaN _ = NaN"
| "fdiv _ NaN = NaN"
| "fdiv (Finite a) (Finite b) =
     (if b = 0 then (if a = 0 then NaN else if 0 < a then PlusInf else MinusInf)
      else round32 (a / b))"
| "fdiv (Finite a) PlusInf = Finite 0"
| "fdiv (Finite a) MinusInf = Finite 0"
| "fdiv PlusInf (Finite b) = (if 0 \<le> b then PlusInf else MinusInf)"
| "fdiv MinusInf (Finite b) = (if 0 \<le> b then MinusInf else PlusInf)"
| "fdiv PlusInf _ = NaN"
| "fdiv MinusInf _ = NaN"

text \<open>\<^verbatim>\<open>isnormal(x)\<close>: neither zero, subnormal, infinite nor NaN.\<close>

fun isnormal :: "cfloat \<Rightarrow> bool" where
  "isnormal (Finite v) = (2 powi (- 126) \<le> \<bar>v\<bar>)"
| "isnormal _ = False"

text \<open>
  Storing a \<^verbatim>\<open>float\<close> in an \<^verbatim>\<open>int\<close> drops the fraction; the behaviour is undefined when
  the integral part does not fit (and for the infinities and NaN).
\<close>

definition truncate_rat :: "rat \<Rightarrow> int" where
  "truncate_rat v = (if 0 \<le> v then \<lfloor>v\<rfloor> else \<lceil>v\<rceil>)"

fun int_of_float :: "cfloat \<Rightarrow> int c_result" where
  "int_of_float (Finite v) =
     (let t = truncate_rat v
      in if INT_MIN \<le> t \<and> t \<le> INT_MAX then Inr t else Inl FloatToIntRange)"
| "int_of_float _ = Inl FloatToIntRange"

section \<open>The adaptive budget (\<^verbatim>\<open>#ifdef CYCLE_AUTOADJUST\<close>, lines 175 to 187)\<close>

text \<open>
  \<^verbatim>\<open>int last_tps = 1000 / (dt / TPF);\<close>
  \<^verbatim>\<open>if (last_tps > (TPS - CYCLE_AUTOADJUST_TOLERANCE) && last_tps < (TPS + CYCLE_AUTOADJUST_TOLERANCE)) {\<close>
  \<^verbatim>\<open>    cycles_per_tick = last_cycle_count; extra_cycles = 0;\<close>
  \<^verbatim>\<open>} else if (last_tps < TPS) {\<close>
  \<^verbatim>\<open>    float mspc = (float)dt / last_cycle_count;\<close>
  \<^verbatim>\<open>    cycles_per_tick = isnormal(mspc) ? (1000.0f / TPS) / mspc : cycles_per_tick;\<close>
  \<^verbatim>\<open>    extra_cycles = 0;\<close>
  \<^verbatim>\<open>}\<close>
  \<^verbatim>\<open>extra_cycles += CYCLE_AUTOADJUST_ADD;\<close>
  \<^verbatim>\<open>last_cycle_count = cycles_per_tick + extra_cycles;\<close>

  The conditional expression has type \<^verbatim>\<open>float\<close> (its operands are a \<^verbatim>\<open>float\<close> and an
  \<^verbatim>\<open>int\<close>), so also the \<^verbatim>\<open>int\<close> of its third operand goes through \<^verbatim>\<open>float\<close> before it
  is stored. \<open>measured_tps\<close> is \<^verbatim>\<open>last_tps\<close>, \<open>recompute\<close> the right-hand side of line 182,
  and the result of \<open>autoadjust\<close> is (\<open>cycles_per_tick\<close>, \<open>extra_cycles\<close>,
  \<open>last_cycle_count\<close>) after line 186.
\<close>

definition recompute :: "int \<Rightarrow> int \<Rightarrow> int \<Rightarrow> int c_result" where
  "recompute dt last_cycle_count cycles_per_tick =
     (let mspc = fdiv (float_of_int dt) (float_of_int last_cycle_count)
      in int_of_float
           (if isnormal mspc then fdiv (fdiv (Finite 1000) (float_of_int TPS)) mspc
            else float_of_int cycles_per_tick))"

definition measured_tps :: "int \<Rightarrow> int c_result" where
  "measured_tps dt = c_bind (c_div dt TPF) (\<lambda>d. c_div 1000 d)"

definition autoadjust :: "int \<Rightarrow> int \<Rightarrow> int \<times> int \<Rightarrow> (int \<times> int \<times> int) c_result" where
  "autoadjust dt last_cycle_count b =
     (case b of (cycles_per_tick, extra_cycles) \<Rightarrow>
      c_bind (measured_tps dt) (\<lambda>last_tps.
      c_bind
        (if last_tps > TPS - CYCLE_AUTOADJUST_TOLERANCE
              \<and> last_tps < TPS + CYCLE_AUTOADJUST_TOLERANCE
         then Inr (last_cycle_count, 0)
         else if last_tps < TPS
         then c_bind (recompute dt last_cycle_count cycles_per_tick) (\<lambda>c. Inr (c, 0))
         else Inr (cycles_per_tick, extra_cycles))
        (\<lambda>(cycles_per_tick', extra_cycles').
      c_bind (c_add extra_cycles' CYCLE_AUTOADJUST_ADD) (\<lambda>extra_cycles''.
      c_bind (c_add cycles_per_tick' extra_cycles'') (\<lambda>last_cycle_count'.
      Inr (cycles_per_tick', extra_cycles'', last_cycle_count'))))))"

text \<open>
  The budget computation of one call of \<^verbatim>\<open>main_loop\<close> (lines 169 to 187): the clamp, the
  base budget and, when \<^verbatim>\<open>CYCLE_AUTOADJUST\<close> is defined, the adjustment. \<open>dt\<close> is the elapsed
  time as line 167 computes it. Without \<^verbatim>\<open>CYCLE_AUTOADJUST\<close> the variable
  \<^verbatim>\<open>last_cycle_count\<close> does not exist; the model hands it through.
\<close>

definition next_budget :: "bool \<Rightarrow> int \<Rightarrow> int \<Rightarrow> int \<Rightarrow> (int \<times> int \<times> int) c_result" where
  "next_budget cycle_autoadjust hz last_cycle_count dt =
     c_bind (base_budget hz (clamp_dt dt)) (\<lambda>b.
       if cycle_autoadjust then autoadjust (clamp_dt dt) last_cycle_count b
       else Inr (fst b, snd b, last_cycle_count))"

text \<open>
  \<^verbatim>\<open>last_cycle_count\<close> after calls of \<^verbatim>\<open>main_loop\<close> with \<^verbatim>\<open>CYCLE_AUTOADJUST\<close> whose elapsed
  times are \<open>dts\<close>, from the value \<open>l\<close>.
\<close>

fun estimates :: "int \<Rightarrow> int \<Rightarrow> int list \<Rightarrow> int c_result" where
  "estimates hz l [] = Inr l"
| "estimates hz l (dt # dts) =
     c_bind (next_budget True hz l dt) (\<lambda>(c, e, l'). estimates hz l' dts)"

section \<open>The machine, the host and the globals of \<^verbatim>\<open>main.c\<close>\<close>

text \<open>
  \<^verbatim>\<open>fox32_err_t\<close> is declared in \<^verbatim>\<open>cpu.h\<close>; \<^verbatim>\<open>main.c\<close> only compares it with
  \<^verbatim>\<open>FOX32_ERR_OK\<close>.
\<close>

datatype fox32_err_t = FOX32_ERR_OK | FOX32_ERR_OTHER nat

text \<open>
  What the functions of the other files can read and write: the three fields of \<^verbatim>\<open>vm\<close>
  that \<^verbatim>\<open>main.c\<close> touches, the two clock variables that the bus reads, and \<open>world\<close>,
  everything \<^verbatim>\<open>main.c\<close> never looks into (the rest of \<^verbatim>\<open>vm\<close>, the peripherals, the
  window, the host clock, the output streams).
\<close>

record 'w machine =
  halted :: bool
  debug :: bool
  headless :: bool
  rtc_time :: int
  rtc_uptime :: "32 word"
  world :: 'w

text \<open>
  The functions and constants \<^verbatim>\<open>main.c\<close> takes from its headers are parameters. Each
  function gets the machine and returns it changed. \<open>fox32_resume\<close> returns the error and
  the final value of \<^verbatim>\<open>executed\<close>, which is 0 before the call. \<open>puts_strerr\<close> is
  \<^verbatim>\<open>puts(fox32_strerr(error))\<close>; \<open>screen_setup\<close> is lines 118 to 131.
\<close>

record 'w host =
  EMSCRIPTEN :: bool
  WINDOWS :: bool
  FOX32_CPU_HZ :: int
  VSYNC_INTERRUPT_VECTOR :: nat
  SDL_GetTicks :: "'w machine \<Rightarrow> 32 word \<times> 'w machine"
  time_NULL :: "'w machine \<Rightarrow> int \<times> 'w machine"
  fox32_resume :: "'w machine \<Rightarrow> int \<Rightarrow> (fox32_err_t \<times> 32 word) \<times> 'w machine"
  puts_strerr :: "'w machine \<Rightarrow> fox32_err_t \<Rightarrow> 'w machine"
  fox32_recover :: "'w machine \<Rightarrow> fox32_err_t \<Rightarrow> fox32_err_t \<times> 'w machine"
  fox32_raise :: "'w machine \<Rightarrow> nat \<Rightarrow> 'w machine"
  ScreenDraw :: "'w machine \<Rightarrow> 'w machine"
  ScreenProcessEvents :: "'w machine \<Rightarrow> bool \<times> 'w machine"
  bus_requests_exit :: "'w machine \<Rightarrow> bool"
  SDL_Init :: "'w machine \<Rightarrow> bool \<times> 'w machine"
  screen_setup :: "'w machine \<Rightarrow> 'w machine"
  serial_init :: "'w machine \<Rightarrow> 'w machine"
  SDL_Delay :: "'w machine \<Rightarrow> int \<Rightarrow> 'w machine"
  emscripten_cancel_main_loop :: "'w machine \<Rightarrow> 'w machine"

text \<open>\<^verbatim>\<open>#ifdef __EMSCRIPTEN__\<close> \<^verbatim>\<open>#define CYCLE_AUTOADJUST\<close>\<close>

definition CYCLE_AUTOADJUST :: "'w host \<Rightarrow> bool" where
  "CYCLE_AUTOADJUST h = EMSCRIPTEN h"

text \<open>
  The calls \<^verbatim>\<open>main.c\<close> makes, in the order it makes them. \<open>RtcUpdate i\<close> is the update of
  \<^verbatim>\<open>rtc_uptime\<close> and \<^verbatim>\<open>rtc_time\<close> in slice \<open>i\<close>; \<open>Resume i n x e\<close> is a call of
  \<^verbatim>\<open>fox32_resume\<close> in slice \<open>i\<close> with \<open>n\<close> cycles requested, \<open>x\<close> reported executed and
  result \<open>e\<close>; \<open>Recover i e\<close> is a call of \<^verbatim>\<open>fox32_recover\<close> in slice \<open>i\<close> that returned
  \<open>e\<close>.
\<close>

datatype event =
    RtcUpdate int
  | Resume int int "32 word" fox32_err_t
  | Puts fox32_err_t
  | Recover int fox32_err_t
  | Draw
  | Raise nat
  | ProcessEvents
  | Delay int
  | CancelMainLoop

text \<open>
  The globals of \<^verbatim>\<open>main.c\<close>. \<open>trace\<close> is not a variable of the program: it records the
  calls made so far.
\<close>

record 'w globals =
  mach :: "'w machine"
  tick_start :: "32 word"
  tick_end :: "32 word"
  ticks :: int
  done_flag :: bool
  last_cycle_count :: int
  trace :: "event list"

section \<open>\<^verbatim>\<open>main_loop\<close>\<close>

text \<open>
  \<^verbatim>\<open>cycles_left -= executed;\<close> with \<^verbatim>\<open>int cycles_left\<close> and \<^verbatim>\<open>uint32_t executed\<close>: the
  subtraction is done on \<^verbatim>\<open>unsigned\<close> (it wraps) and the difference is stored in the
  \<^verbatim>\<open>int\<close>.
\<close>

definition sub_executed :: "int \<Rightarrow> 32 word \<Rightarrow> int" where
  "sub_executed cycles_left executed = sint ((word_of_int cycles_left :: 32 word) - executed)"

text \<open>
  The inner loop, lines 204 to 216. It may run forever, so its result is an option; a
  result is the value of \<^verbatim>\<open>cycles_left\<close> when the loop is left and the globals then.
\<close>

partial_function (option) while_cycles ::
  "'w host \<Rightarrow> int \<Rightarrow> int \<Rightarrow> 'w globals \<Rightarrow> (int \<times> 'w globals) option" where
  "while_cycles h i cycles_left s =
     (if cycles_left > 0 then
        (case fox32_resume h (mach s) cycles_left of ((error, executed), m1) \<Rightarrow>
           let s1 = s\<lparr>mach := m1, trace := trace s @ [Resume i cycles_left executed error]\<rparr> in
           if error \<noteq> FOX32_ERR_OK then
             (let s2 = (if debug m1
                        then s1\<lparr>mach := puts_strerr h m1 error, trace := trace s1 @ [Puts error]\<rparr>
                        else s1) in
              case fox32_recover h (mach s2) error of (error', m3) \<Rightarrow>
                let s3 = s2\<lparr>mach := m3, trace := trace s2 @ [Recover i error']\<rparr> in
                if error' \<noteq> FOX32_ERR_OK then Some (cycles_left, s3)
                else while_cycles h i (sub_executed cycles_left executed) s3)
           else while_cycles h i (sub_executed cycles_left executed) s1)
      else Some (cycles_left, s))"

text \<open>Lines 192 to 197: \<^verbatim>\<open>rtc_uptime\<close> and \<^verbatim>\<open>rtc_time\<close> of slice \<open>i\<close>.\<close>

definition rtc_update :: "'w host \<Rightarrow> int \<Rightarrow> 'w globals \<Rightarrow> 'w globals" where
  "rtc_update h i s =
     (let m1 = (if CYCLE_AUTOADJUST h
                then (case SDL_GetTicks h (mach s) of (t, m) \<Rightarrow> m\<lparr>rtc_uptime := t\<rparr>)
                else (mach s)\<lparr>rtc_uptime := rtc_uptime (mach s) + 1\<rparr>)
      in case time_NULL h m1 of (t, m2) \<Rightarrow>
           s\<lparr>mach := m2\<lparr>rtc_time := t\<rparr>, trace := trace s @ [RtcUpdate i]\<rparr>)"

text \<open>
  Lines 199 to 202: \<^verbatim>\<open>int cycles_left = cycles_per_tick; if (i == dt - 1) cycles_left += extra_cycles;\<close>
  The sum does not overflow for a budget that the budget computation has returned
  (\<open>slice_budget_in_range\<close> below), so it is written without the check.
\<close>

definition slice_budget :: "int \<Rightarrow> int \<Rightarrow> int \<Rightarrow> int \<Rightarrow> int" where
  "slice_budget dt cycles_per_tick extra_cycles i =
     (if i = dt - 1 then cycles_per_tick + extra_cycles else cycles_per_tick)"

text \<open>The loop over the millisecond slices, lines 191 to 217, from slice \<open>i\<close> on.\<close>

function for_slices ::
  "'w host \<Rightarrow> int \<Rightarrow> int \<Rightarrow> int \<Rightarrow> int \<Rightarrow> 'w globals \<Rightarrow> 'w globals option" where
  "for_slices h dt cycles_per_tick extra_cycles i s =
     (if i < dt then
        (case while_cycles h i (slice_budget dt cycles_per_tick extra_cycles i) (rtc_update h i s) of
           None \<Rightarrow> None
         | Some (cycles_left, s') \<Rightarrow> for_slices h dt cycles_per_tick extra_cycles (i + 1) s')
      else Some s)"
  by pat_completeness auto
termination
  by (relation "measure (\<lambda>(h, dt, c, e, i, s). nat (dt - i))") auto

declare for_slices.simps [simp del]

text \<open>\<^verbatim>\<open>ticks % TPF\<close>: the remainder of the truncating division.\<close>

definition tmod :: "int \<Rightarrow> int \<Rightarrow> int" where
  "tmod a b = a - tdiv a b * b"

text \<open>Lines 219 to 224.\<close>

definition interrupt_dispatch :: "'w host \<Rightarrow> 'w globals \<Rightarrow> 'w globals" where
  "interrupt_dispatch h s =
     (if tmod (ticks s) TPF = 0 then
        let s1 = (if \<not> headless (mach s)
                  then s\<lparr>mach := ScreenDraw h (mach s), trace := trace s @ [Draw]\<rparr>
                  else s);
            m2 = fox32_raise h (mach s1) (VSYNC_INTERRUPT_VECTOR h)
        in s1\<lparr>mach := m2\<lparr>halted := False\<rparr>,
               trace := trace s1 @ [Raise (VSYNC_INTERRUPT_VECTOR h)]\<rparr>
      else s)"

text \<open>Lines 226 to 228: \<^verbatim>\<open>done = ScreenProcessEvents(); ticks++;\<close>\<close>

definition poll_events :: "'w host \<Rightarrow> 'w globals \<Rightarrow> 'w globals c_result" where
  "poll_events h s =
     (case ScreenProcessEvents h (mach s) of (d, m) \<Rightarrow>
        c_bind (c_add (ticks s) 1) (\<lambda>t.
          Inr (s\<lparr>mach := m, done_flag := d, ticks := t, trace := trace s @ [ProcessEvents]\<rparr>)))"

text \<open>Lines 162 to 168: the cancellation under \<^verbatim>\<open>__EMSCRIPTEN__\<close> and the elapsed time.\<close>

definition begin_tick :: "'w host \<Rightarrow> 'w globals \<Rightarrow> int \<times> 'w globals" where
  "begin_tick h s =
     (let s0 = (if EMSCRIPTEN h \<and> (done_flag s \<or> bus_requests_exit h (mach s))
                then s\<lparr>mach := emscripten_cancel_main_loop h (mach s),
                       trace := trace s @ [CancelMainLoop]\<rparr>
                else s)
      in case SDL_GetTicks h (mach s0) of (now1, m1) \<Rightarrow>
         case SDL_GetTicks h m1 of (now2, m2) \<Rightarrow>
           (elapsed_ms now1 (tick_start s0), s0\<lparr>mach := m2, tick_start := now2\<rparr>))"

text \<open>
  One call of \<^verbatim>\<open>main_loop\<close>. \<open>None\<close>: an inner loop never ends. \<open>Some (Inl e)\<close>: the
  behaviour is undefined. \<open>Some (Inr s')\<close>: the call returns with globals \<open>s'\<close>.
\<close>

definition main_loop :: "'w host \<Rightarrow> 'w globals \<Rightarrow> 'w globals c_result option" where
  "main_loop h s =
     (case begin_tick h s of (dt, s1) \<Rightarrow>
      case next_budget (CYCLE_AUTOADJUST h) (FOX32_CPU_HZ h) (last_cycle_count s1) dt of
        Inl e \<Rightarrow> Some (Inl e)
      | Inr (cycles_per_tick, extra_cycles, last_cycle_count') \<Rightarrow>
          (case for_slices h (clamp_dt dt) cycles_per_tick extra_cycles 0
                  (s1\<lparr>last_cycle_count := last_cycle_count'\<rparr>) of
             None \<Rightarrow> None
           | Some s2 \<Rightarrow> Some (poll_events h (interrupt_dispatch h s2))))"

section \<open>\<^verbatim>\<open>main\<close> from line 112 on\<close>

text \<open>
  The state of a run of \<^verbatim>\<open>main\<close>: it has returned a status, the browser's loop has been
  cancelled, it is still in its loop, or its behaviour is undefined.
\<close>

datatype 'w run =
    Returned int "'w globals"
  | Cancelled "'w globals"
  | Looping "'w globals"
  | Undefined c_error

text \<open>
  Lines 112 to 140. The argument is the globals after the options are read, so
  \<open>headless (mach s)\<close> is whether \<^verbatim>\<open>--headless\<close> was given.
\<close>

definition startup :: "'w host \<Rightarrow> 'w globals \<Rightarrow> 'w run" where
  "startup h s =
     (let r = (if \<not> headless (mach s) then
                 (case SDL_Init h (mach s) of (ok, m) \<Rightarrow>
                    if \<not> ok then Returned 1 (s\<lparr>mach := m\<rparr>)
                    else Looping (s\<lparr>mach := ScreenDraw h (screen_setup h m),
                                    trace := trace s @ [Draw]\<rparr>))
               else Looping s)
      in case r of
           Looping s1 \<Rightarrow>
             (let m1 = (if \<not> WINDOWS h then serial_init h (mach s1) else mach s1) in
              case SDL_GetTicks h m1 of (t1, m2) \<Rightarrow>
              case SDL_GetTicks h m2 of (t2, m3) \<Rightarrow>
                Looping (s1\<lparr>mach := m3, tick_start := t1, tick_end := t2\<rparr>))
         | _ \<Rightarrow> r)"

text \<open>
  Lines 149 to 155, after a call of \<^verbatim>\<open>main_loop\<close> in the loop of \<^verbatim>\<open>main\<close>:
  \<^verbatim>\<open>int delay = 1000/TPS - (tick_end - tick_start);\<close> is computed on \<^verbatim>\<open>unsigned\<close>.
\<close>

definition pace :: "'w host \<Rightarrow> 'w globals \<Rightarrow> 'w globals" where
  "pace h s =
     (case SDL_GetTicks h (mach s) of (t, m) \<Rightarrow>
        let s1 = s\<lparr>mach := m, tick_end := t\<rparr>;
            delay = sint ((word_of_int (tdiv 1000 TPS) :: 32 word) - (tick_end s1 - tick_start s1))
        in if delay > 0
           then s1\<lparr>mach := SDL_Delay h (mach s1) delay, trace := trace s1 @ [Delay delay]\<rparr>
           else s1)"

text \<open>
  The loop of \<^verbatim>\<open>main\<close>, lines 146 to 158, cut after at most \<open>n\<close> calls of \<^verbatim>\<open>main_loop\<close>:
  \<open>Some (Returned 0 s)\<close> when the loop has ended by then, \<open>Some (Looping s)\<close> when it is
  still running after \<open>n\<close> calls, \<open>None\<close> when a call of \<^verbatim>\<open>main_loop\<close> never returns.
  Under \<^verbatim>\<open>__EMSCRIPTEN__\<close> \<^verbatim>\<open>main\<close> does not get to line 146: line 143 hands \<^verbatim>\<open>main_loop\<close> to
  the browser, which calls it until a call has cancelled the loop (\<open>Some (Cancelled s)\<close>).
\<close>

fun ticks_upto :: "'w host \<Rightarrow> nat \<Rightarrow> 'w globals \<Rightarrow> 'w run option" where
  "ticks_upto h 0 s = Some (Looping s)"
| "ticks_upto h (Suc n) s =
     (if EMSCRIPTEN h then
        (case main_loop h s of
           None \<Rightarrow> None
         | Some (Inl e) \<Rightarrow> Some (Undefined e)
         | Some (Inr s1) \<Rightarrow>
             if done_flag s \<or> bus_requests_exit h (mach s) then Some (Cancelled s1)
             else ticks_upto h n s1)
      else if \<not> done_flag s \<and> \<not> bus_requests_exit h (mach s) then
        (case main_loop h s of
           None \<Rightarrow> None
         | Some (Inl e) \<Rightarrow> Some (Undefined e)
         | Some (Inr s1) \<Rightarrow> ticks_upto h n (pace h s1))
      else Some (Returned 0 s))"

definition main_upto :: "'w host \<Rightarrow> nat \<Rightarrow> 'w globals \<Rightarrow> 'w run option" where
  "main_upto h n s =
     (case startup h s of
        Looping s1 \<Rightarrow> ticks_upto h n s1
      | r \<Rightarrow> Some r)"

section \<open>What a trace shows\<close>

text \<open>
  The events of one run of the inner loop for slice \<open>i\<close> entered with \<open>c\<close> cycles left:
  every call of \<^verbatim>\<open>fox32_resume\<close> asks for the cycles left then; a fault is followed by
  the recovery (after the message, in debug mode); nothing follows a recovery that
  failed.
\<close>

fun slice_events :: "int \<Rightarrow> int \<Rightarrow> event list \<Rightarrow> bool" where
  "slice_events i c [] = (c \<le> 0)"
| "slice_events i c (Resume j n x FOX32_ERR_OK # evs) =
     (j = i \<and> n = c \<and> 0 < c \<and> slice_events i (sub_executed c x) evs)"
| "slice_events i c (Resume j n x e # Puts e' # Recover k r # evs) =
     (j = i \<and> n = c \<and> 0 < c \<and> e' = e \<and> k = i
      \<and> (if r \<noteq> FOX32_ERR_OK then evs = [] else slice_events i (sub_executed c x) evs))"
| "slice_events i c (Resume j n x e # Recover k r # evs) =
     (j = i \<and> n = c \<and> 0 < c \<and> k = i
      \<and> (if r \<noteq> FOX32_ERR_OK then evs = [] else slice_events i (sub_executed c x) evs))"
| "slice_events i c _ = False"

text \<open>
  The events of the loop over the slices from slice \<open>i\<close> on, where \<open>budget j\<close> is the
  budget of slice \<open>j\<close>: for each slice the clock update, then the events of its inner
  loop.
\<close>

inductive tick_events :: "int \<Rightarrow> (int \<Rightarrow> int) \<Rightarrow> int \<Rightarrow> event list \<Rightarrow> bool"
  for dt :: int and budget :: "int \<Rightarrow> int" where
    tick_done: "\<not> i < dt \<Longrightarrow> tick_events dt budget i []"
  | tick_slice: "i < dt \<Longrightarrow> slice_events i (budget i) evs1 \<Longrightarrow> tick_events dt budget (i + 1) evs2
      \<Longrightarrow> tick_events dt budget i (RtcUpdate i # evs1 @ evs2)"

code_pred tick_events .

text \<open>An event of the inner loop of slice \<open>i\<close>.\<close>

fun in_slice :: "int \<Rightarrow> event \<Rightarrow> bool" where
  "in_slice i (Resume j n x e) = (j = i)"
| "in_slice i (Recover j r) = (j = i)"
| "in_slice i (Puts e) = True"
| "in_slice i _ = False"





text \<open>
  Every slice starts with its full budget: the call of \<^verbatim>\<open>fox32_resume\<close> that comes first
  after the clock update of slice \<open>i\<close> is for slice \<open>i\<close> and asks for \<open>budget i\<close> cycles.
\<close>

fun fresh_budgets :: "(int \<Rightarrow> int) \<Rightarrow> event list \<Rightarrow> bool" where
  "fresh_budgets budget [] = True"
| "fresh_budgets budget (RtcUpdate i # Resume j n x e # evs) =
     (j = i \<and> n = budget i \<and> fresh_budgets budget evs)"
| "fresh_budgets budget (_ # evs) = fresh_budgets budget evs"


text \<open>
  The order of clock and cycles within a tick. \<open>rtc_then_cycles cur\<close>: every call of the
  engine for slice \<open>i\<close> comes after the clock update of slice \<open>i\<close> and before the next
  clock update (\<open>cur\<close> is the slice whose clock update came last). \<open>cycles_then_rtc adv\<close>:
  no call of \<^verbatim>\<open>fox32_resume\<close> for slice \<open>i\<close> comes after the clock update of slice \<open>i\<close>
  (\<open>adv\<close> are the slices whose clock has been updated).
\<close>

fun rtc_then_cycles :: "int option \<Rightarrow> event list \<Rightarrow> bool" where
  "rtc_then_cycles cur [] = True"
| "rtc_then_cycles cur (RtcUpdate i # evs) = rtc_then_cycles (Some i) evs"
| "rtc_then_cycles cur (Resume i n x e # evs) = (cur = Some i \<and> rtc_then_cycles cur evs)"
| "rtc_then_cycles cur (Recover i r # evs) = (cur = Some i \<and> rtc_then_cycles cur evs)"
| "rtc_then_cycles cur (_ # evs) = rtc_then_cycles cur evs"

fun cycles_then_rtc :: "int list \<Rightarrow> event list \<Rightarrow> bool" where
  "cycles_then_rtc adv [] = True"
| "cycles_then_rtc adv (RtcUpdate i # evs) = cycles_then_rtc (i # adv) evs"
| "cycles_then_rtc adv (Resume i n x e # evs) = (i \<notin> set adv \<and> cycles_then_rtc adv evs)"
| "cycles_then_rtc adv (_ # evs) = cycles_then_rtc adv evs"

text \<open>The interrupts raised, and the events that a call added to the trace.\<close>

definition raises :: "event list \<Rightarrow> event list" where
  "raises evs = filter (\<lambda>ev. case ev of Raise v \<Rightarrow> True | _ \<Rightarrow> False) evs"

definition events_since :: "'w globals \<Rightarrow> 'w globals \<Rightarrow> event list" where
  "events_since s s' = drop (length (trace s)) (trace s')"


text \<open>
  Every call of \<^verbatim>\<open>fox32_resume\<close> for a positive \<^verbatim>\<open>int\<close> of cycles makes progress: it
  reports at least one executed cycle and at most \<open>2 ^ 31\<close>, or it returns a fault from
  which the recovery fails.
\<close>

definition makes_progress :: "'w host \<Rightarrow> bool" where
  "makes_progress h =
     (\<forall>m n. 0 < n \<and> n \<le> INT_MAX \<longrightarrow>
        (case fox32_resume h m n of ((e, x), m1) \<Rightarrow>
           (1 \<le> unat x \<and> unat x \<le> 2 ^ 31)
           \<or> (e \<noteq> FOX32_ERR_OK
               \<and> fst (fox32_recover h (if debug m1 then puts_strerr h m1 e else m1) e)
                   \<noteq> FOX32_ERR_OK)))"

text \<open>
  Modelled from the spec: \<^verbatim>\<open>fox32_resume\<close> is defined in \<^verbatim>\<open>cpu.c\<close>, which is not among the
  sources. Its contract (section 4.2, \<^verbatim>\<open>run\<close>) is that it never executes more than the
  budget it is given and returns the count it has executed: \<open>within_budget\<close>.
\<close>

definition within_budget :: "'w host \<Rightarrow> bool" where
  "within_budget h =
     (\<forall>m n. 0 < n \<and> n \<le> INT_MAX \<longrightarrow> int (unat (snd (fst (fox32_resume h m n)))) \<le> n)"

text \<open>
  Every call of \<^verbatim>\<open>fox32_resume\<close> for a positive \<^verbatim>\<open>int\<close> of cycles either reports at least
  one executed cycle or returns a fault from which the recovery fails.
\<close>

definition reports_progress :: "'w host \<Rightarrow> bool" where
  "reports_progress h =
     (\<forall>m n. 0 < n \<and> n \<le> INT_MAX \<longrightarrow>
        (case fox32_resume h m n of ((e, x), m1) \<Rightarrow>
           1 \<le> unat x
           \<or> (e \<noteq> FOX32_ERR_OK
               \<and> fst (fox32_recover h (if debug m1 then puts_strerr h m1 e else m1) e)
                   \<noteq> FOX32_ERR_OK)))"

text \<open>
  The functions of the other files leave \<^verbatim>\<open>vm.headless\<close> as it is: \<^verbatim>\<open>main.c\<close> sets it
  while it reads the options and nothing is meant to change it afterwards.
\<close>

definition keeps_headless :: "'w host \<Rightarrow> bool" where
  "keeps_headless h =
     (\<forall>m n e v.
        headless (snd (SDL_GetTicks h m)) = headless m
      \<and> headless (snd (time_NULL h m)) = headless m
      \<and> headless (snd (fox32_resume h m n)) = headless m
      \<and> headless (puts_strerr h m e) = headless m
      \<and> headless (snd (fox32_recover h m e)) = headless m
      \<and> headless (fox32_raise h m v) = headless m
      \<and> headless (snd (ScreenProcessEvents h m)) = headless m
      \<and> headless (serial_init h m) = headless m
      \<and> headless (SDL_Delay h m n) = headless m
      \<and> headless (emscripten_cancel_main_loop h m) = headless m)"

text \<open>
  A host whose \<open>world\<close> counts the calls of \<^verbatim>\<open>fox32_raise\<close>: every call adds one to it and
  no other function that \<^verbatim>\<open>main_loop\<close> calls changes it.
\<close>

definition counts_raises :: "nat host \<Rightarrow> bool" where
  "counts_raises h =
     (\<forall>m n e v.
        world (fox32_raise h m v) = Suc (world m)
      \<and> world (snd (SDL_GetTicks h m)) = world m
      \<and> world (snd (time_NULL h m)) = world m
      \<and> world (snd (fox32_resume h m n)) = world m
      \<and> world (puts_strerr h m e) = world m
      \<and> world (snd (fox32_recover h m e)) = world m
      \<and> world (ScreenDraw h m) = world m
      \<and> world (snd (ScreenProcessEvents h m)) = world m
      \<and> world (emscripten_cancel_main_loop h m) = world m)"

text \<open>The globals a run of \<^verbatim>\<open>main\<close> has got to, if it has any.\<close>

fun globals_of :: "'w run \<Rightarrow> 'w globals option" where
  "globals_of (Returned c s) = Some s"
| "globals_of (Cancelled s) = Some s"
| "globals_of (Looping s) = Some s"
| "globals_of (Undefined e) = None"

section \<open>Hosts and globals to run the model on\<close>

text \<open>
  A host whose \<open>world\<close> is the reading of its clock in milliseconds, which no call
  advances. \<open>engine n\<close> is what \<^verbatim>\<open>fox32_resume\<close> reports for \<open>n\<close> requested cycles,
  \<open>rec e\<close> what \<^verbatim>\<open>fox32_recover\<close> returns for the error \<open>e\<close>; neither changes the machine.
  \<^verbatim>\<open>FOX32_CPU_HZ\<close> is the 64000000 of the specification's scenario.
\<close>

definition test_host ::
  "bool \<Rightarrow> (int \<Rightarrow> fox32_err_t \<times> 32 word) \<Rightarrow> (fox32_err_t \<Rightarrow> fox32_err_t) \<Rightarrow> nat host" where
  "test_host ems engine rec =
     \<lparr>EMSCRIPTEN = ems, WINDOWS = False, FOX32_CPU_HZ = 64000000, VSYNC_INTERRUPT_VECTOR = 255,
      SDL_GetTicks = (\<lambda>m. (of_nat (world m), m)),
      time_NULL = (\<lambda>m. (int (world m) div 1000, m)),
      fox32_resume = (\<lambda>m n. (engine n, m)),
      puts_strerr = (\<lambda>m e. m),
      fox32_recover = (\<lambda>m e. (rec e, m)),
      fox32_raise = (\<lambda>m v. m),
      ScreenDraw = (\<lambda>m. m),
      ScreenProcessEvents = (\<lambda>m. (False, m)),
      bus_requests_exit = (\<lambda>m. False),
      SDL_Init = (\<lambda>m. (True, m)),
      screen_setup = (\<lambda>m. m),
      serial_init = (\<lambda>m. m),
      SDL_Delay = (\<lambda>m d. m),
      emscripten_cancel_main_loop = (\<lambda>m. m)\<rparr>"

text \<open>An engine that executes every cycle it is asked for, and one that faults at once.\<close>

definition steady_engine :: "int \<Rightarrow> fox32_err_t \<times> 32 word" where
  "steady_engine n = (FOX32_ERR_OK, word_of_int n)"

definition faulting_engine :: "int \<Rightarrow> fox32_err_t \<times> 32 word" where
  "faulting_engine n = (FOX32_ERR_OTHER 1, 0)"

text \<open>An engine that executes nothing, and one that reports more than it was asked for.\<close>

definition idle_engine :: "int \<Rightarrow> fox32_err_t \<times> 32 word" where
  "idle_engine n = (FOX32_ERR_OK, 0)"

definition overreporting_engine :: "int \<Rightarrow> fox32_err_t \<times> 32 word" where
  "overreporting_engine n = (FOX32_ERR_OK, if n = 5 then 4294967295 else 1)"

text \<open>
  The globals as the initialisers of \<^verbatim>\<open>main.c\<close> and lines 64 and 65 leave them, with the
  host clock at \<open>clock\<close> and \<^verbatim>\<open>vm.headless\<close> and \<^verbatim>\<open>vm.halted\<close> as given.
\<close>

definition init_globals :: "nat \<Rightarrow> bool \<Rightarrow> bool \<Rightarrow> nat globals" where
  "init_globals clock hl ht =
     \<lparr>mach = \<lparr>halted = ht, debug = False, headless = hl, rtc_time = 0, rtc_uptime = 0,
              world = clock\<rparr>,
      tick_start = 0, tick_end = 0, ticks = 0, done_flag = False, last_cycle_count = 1,
      trace = []\<rparr>"

text \<open>
  The events of one call of \<^verbatim>\<open>main_loop\<close> after 2 ms with the engine that faults at once
  and a recovery that fails.
\<close>

definition faulting_tick_events :: "event list" where
  "faulting_tick_events =
     [RtcUpdate 0, Resume 0 533333 0 (FOX32_ERR_OTHER 1), Recover 0 (FOX32_ERR_OTHER 1),
      RtcUpdate 1, Resume 1 533333 0 (FOX32_ERR_OTHER 1), Recover 1 (FOX32_ERR_OTHER 1),
      Draw, Raise 255, ProcessEvents]"

definition after_faulting_tick :: "bool \<Rightarrow> nat globals" where
  "after_faulting_tick ht =
     (init_globals 2 False ht)
       \<lparr>mach := (mach (init_globals 2 False ht))\<lparr>halted := False, rtc_uptime := 2\<rparr>,
        tick_start := 2, ticks := 1, trace := faulting_tick_events\<rparr>"

text \<open>
  The globals after \<^verbatim>\<open>main\<close> has started in headless mode with the host clock at 0 and has
  made one call of \<^verbatim>\<open>main_loop\<close>, with the engine that faults at once and a recovery that
  fails.
\<close>

definition after_headless_tick :: "nat globals" where
  "after_headless_tick =
     (init_globals 0 True False)
       \<lparr>mach := (mach (init_globals 0 True False))\<lparr>rtc_uptime := 1\<rparr>,
        ticks := 1,
        trace := [RtcUpdate 0, Resume 0 1066666 0 (FOX32_ERR_OTHER 1),
                  Recover 0 (FOX32_ERR_OTHER 1), Raise 255, ProcessEvents, Delay 16]\<rparr>"

text \<open>
  A host whose clock stands at 2 ms and whose \<open>world\<close> counts the calls of \<^verbatim>\<open>fox32_raise\<close>,
  with the engine that faults at once and a recovery that fails; and the globals after one
  call of \<^verbatim>\<open>main_loop\<close> with it, from the initial globals with \<^verbatim>\<open>vm.halted\<close> set.
\<close>

definition raise_counting_host :: "nat host" where
  "raise_counting_host =
     (test_host False faulting_engine id)
       \<lparr>SDL_GetTicks := (\<lambda>m. (2, m)),
        fox32_raise := (\<lambda>m v. m\<lparr>world := Suc (world m)\<rparr>)\<rparr>"

definition after_counted_tick :: "nat globals" where
  "after_counted_tick =
     (init_globals 0 False True)
       \<lparr>mach := (mach (init_globals 0 False True))\<lparr>halted := False, rtc_uptime := 2, world := 1\<rparr>,
        tick_start := 2, ticks := 1, trace := faulting_tick_events\<rparr>"

section \<open>The base budget\<close>

lemma TPS_eq: "TPS = 60"
  by (simp add: TPS_def FPS_def TPF_def)

lemma tdiv_nonneg: "0 \<le> a \<Longrightarrow> 0 < b \<Longrightarrow> tdiv a b = a div b"
  by (cases "a = 0") (simp_all add: tdiv_def)

lemma base_budget_value:
  assumes hz: "0 \<le> hz" "hz \<le> INT_MAX" and dt: "0 < dt"
  shows "base_budget hz dt = Inr (hz div 60 div dt, hz div 60 - hz div 60 div dt * dt)"
proof -
  let ?q = "hz div 60"
  let ?c = "?q div dt"
  have q0: "0 \<le> ?q" using hz by (simp add: pos_imp_zdiv_nonneg_iff)
  have qle: "?q \<le> hz" using hz by linarith
  have c0: "0 \<le> ?c" using q0 dt by (simp add: pos_imp_zdiv_nonneg_iff)
  have cle: "?c \<le> ?q" using q0 dt by (simp add: int_div_less_self div_by_1 zdiv_mono2 [of "?q" 1 dt, simplified])
  have p: "?c * dt \<le> ?q"
    using dt by (metis div_mult_mod_eq le_add_same_cancel1 pos_mod_sign)
  have p0: "0 \<le> ?c * dt" using c0 dt by simp
  have 1: "c_div hz TPS = Inr ?q"
    using hz q0 qle by (simp add: c_div_def TPS_eq tdiv_nonneg c_int_def INT_MAX_def INT_MIN_def)
  have 2: "c_div ?q dt = Inr ?c"
    using hz q0 qle c0 cle dt
    by (simp add: c_div_def tdiv_nonneg c_int_def INT_MAX_def INT_MIN_def)
  have 3: "c_mul ?c dt = Inr (?c * dt)"
    using hz qle p p0 by (simp add: c_mul_def c_int_def INT_MAX_def INT_MIN_def)
  have 4: "c_sub ?q (?c * dt) = Inr (?q - ?c * dt)"
    using hz qle p p0 q0 by (simp add: c_sub_def c_int_def INT_MAX_def INT_MIN_def)
  show ?thesis
    by (simp add: base_budget_def c_bind_def 1 2 3 4)
qed

section \<open>Rounding to binary32\<close>

text \<open>
  The exponent that \<open>flog2\<close> computes is the right one, rounding is monotone, and it leaves
  the integers up to \<open>2 ^ 24\<close> as they are.
\<close>

lemma ilog2_bounds:
  "1 \<le> n \<Longrightarrow> 0 \<le> ilog2 n \<and> 2 ^ nat (ilog2 n) \<le> n \<and> n < 2 * 2 ^ nat (ilog2 n)"
proof (induction n rule: ilog2.induct)
  case (1 n)
  show ?case
  proof (cases "n < 2")
    case True
    with "1.prems" have "n = 1" by simp
    then show ?thesis by (simp add: ilog2.simps)
  next
    case False
    then have h: "1 \<le> n div 2" by simp
    from "1.IH" [OF False h]
    have ih: "0 \<le> ilog2 (n div 2)" "2 ^ nat (ilog2 (n div 2)) \<le> n div 2"
      "n div 2 < 2 * 2 ^ nat (ilog2 (n div 2))" by simp_all
    have eq: "ilog2 n = 1 + ilog2 (n div 2)" using False by (subst ilog2.simps) simp
    have nat_eq: "nat (ilog2 n) = Suc (nat (ilog2 (n div 2)))"
      using ih(1) eq by simp
    show ?thesis using ih eq nat_eq by simp linarith
  qed
qed

lemma powi_2_pos: "0 < (2::rat) powi k"
  by (simp add: zero_less_power_int)

lemma powi_2_add: "(2::rat) powi (a + b) = 2 powi a * 2 powi b"
  by (simp add: power_int_add)

lemma powi_2_mono: "a \<le> b \<Longrightarrow> (2::rat) powi a \<le> 2 powi b"
  by (simp add: power_int_increasing)

lemma powi_2_nat: "0 \<le> k \<Longrightarrow> (2::rat) powi k = 2 ^ nat k"
  by (simp add: power_int_def)

lemma powi_2_diff: "(2::rat) powi (a - b) = 2 powi a / 2 powi b"
  by (simp add: power_int_diff)

lemma powi_2_less_imp: "(2::rat) powi a < 2 powi b \<Longrightarrow> a < b"
proof (rule ccontr)
  assume h: "2 powi a < (2::rat) powi b" and "\<not> a < b"
  then have "b \<le> a" by simp
  from powi_2_mono [OF this] h show False by simp
qed

lemma of_int_pow2_le: "2 ^ k \<le> (n::int) \<Longrightarrow> (2::rat) ^ k \<le> of_int n"
proof -
  assume "2 ^ k \<le> n"
  then have "(of_int (2 ^ k) :: rat) \<le> of_int n" by (simp only: of_int_le_iff)
  then show ?thesis by simp
qed

lemma of_int_less_pow2: "(n::int) < 2 * 2 ^ k \<Longrightarrow> of_int n < 2 * (2::rat) ^ k"
proof -
  assume "n < 2 * 2 ^ k"
  then have "(of_int n :: rat) < of_int (2 * 2 ^ k)" by (simp only: of_int_less_iff)
  then show ?thesis by simp
qed

lemma flog2_bounds:
  assumes "0 < x"
  shows "2 powi flog2 x \<le> x \<and> x < 2 powi (flog2 x + 1)"
proof -
  obtain n d where q: "quotient_of x = (n, d)" by (cases "quotient_of x")
  have d: "0 < d" using q quotient_of_denom_pos by blast
  have x: "x = of_int n / of_int d" using q by (simp add: quotient_of_div)
  have n: "0 < n" using assms d x by (simp add: zero_less_divide_iff)
  let ?a = "ilog2 n" and ?b = "ilog2 d"
  from ilog2_bounds [of n] n
  have a: "0 \<le> ?a" "2 ^ nat ?a \<le> n" "n < 2 * 2 ^ nat ?a" by simp_all
  from ilog2_bounds [of d] d
  have b: "0 \<le> ?b" "2 ^ nat ?b \<le> d" "d < 2 * 2 ^ nat ?b" by simp_all
  have ra: "(2::rat) powi ?a \<le> of_int n" "of_int n < 2 * (2::rat) powi ?a"
    using a of_int_pow2_le [of "nat ?a" n] of_int_less_pow2 [of n "nat ?a"]
    by (simp_all add: powi_2_nat)
  have rb: "(2::rat) powi ?b \<le> of_int d" "of_int d < 2 * (2::rat) powi ?b"
    using b of_int_pow2_le [of "nat ?b" d] of_int_less_pow2 [of d "nat ?b"]
    by (simp_all add: powi_2_nat)
  let ?k = "?a - ?b"
  have dpos: "(0::rat) < of_int d" using d by simp
  have npos: "(0::rat) < of_int n" using n by simp
  have up: "x < 2 powi (?k + 1)"
  proof -
    have "(of_int n :: rat) / of_int d < (2 * 2 powi ?a) / 2 powi ?b"
      by (rule frac_less) (use ra(2) rb(1) npos powi_2_pos [of ?b] in \<open>simp_all add: less_imp_le\<close>)
    moreover have "(2::rat) powi (?k + 1) = (2 * 2 powi ?a) / 2 powi ?b"
      by (simp only: powi_2_add powi_2_diff) simp
    ultimately show ?thesis by (simp only: x)
  qed
  have lo: "2 powi (?k - 1) \<le> x"
  proof -
    have "2 powi ?a / (2 * 2 powi ?b) \<le> (of_int n :: rat) / of_int d"
    proof (rule frac_le)
      show "(0::rat) \<le> of_int n" using n by simp
      show "2 powi ?a \<le> (of_int n :: rat)" by (rule ra(1))
      show "(0::rat) < of_int d" by (rule dpos)
      show "(of_int d :: rat) \<le> 2 * 2 powi ?b" using rb(2) by simp
    qed
    moreover have "(2::rat) powi (?k - 1) = 2 powi ?a / (2 * 2 powi ?b)"
      by (simp only: powi_2_diff) simp
    ultimately show ?thesis by (simp only: x)
  qed
  have fl: "flog2 x = (if 2 powi ?k \<le> x then ?k else ?k - 1)"
    by (simp add: flog2_def q Let_def)
  show ?thesis
  proof (cases "2 powi ?k \<le> x")
    case True
    then show ?thesis using up fl by simp
  next
    case False
    then have "x < 2 powi ?k" by simp
    then show ?thesis using lo fl False by simp
  qed
qed

lemma flog2_ge: "0 < x \<Longrightarrow> 2 powi e \<le> x \<Longrightarrow> e \<le> flog2 x"
proof -
  assume x: "0 < x" and e: "2 powi e \<le> x"
  have "(2::rat) powi e < 2 powi (flog2 x + 1)"
    using flog2_bounds [OF x] e by linarith
  from powi_2_less_imp [OF this] show ?thesis by simp
qed


lemma flog2_mono: "0 < x \<Longrightarrow> x \<le> y \<Longrightarrow> flog2 x \<le> flog2 y"
proof -
  assume x: "0 < x" and xy: "x \<le> y"
  have "2 powi flog2 x \<le> y" using flog2_bounds [OF x] xy by linarith
  moreover have "0 < y" using x xy by linarith
  ultimately show ?thesis by (rule flog2_ge [rotated])
qed

lemma round_half_even_of_int: "round_half_even (of_int k) = k"
  by (simp add: round_half_even_def)

lemma round_half_even_bounds: "\<lfloor>m\<rfloor> \<le> round_half_even m \<and> round_half_even m \<le> \<lfloor>m\<rfloor> + 1"
  by (simp add: round_half_even_def Let_def)

lemma round_half_even_mono:
  assumes "m \<le> m'"
  shows "round_half_even m \<le> round_half_even m'"
proof (cases "\<lfloor>m\<rfloor> = \<lfloor>m'\<rfloor>")
  case True
  have "m - of_int \<lfloor>m'\<rfloor> \<le> m' - of_int \<lfloor>m'\<rfloor>" using assms by simp
  then show ?thesis using True
    by (simp add: round_half_even_def Let_def)
next
  case False
  then have "\<lfloor>m\<rfloor> + 1 \<le> \<lfloor>m'\<rfloor>" using floor_mono [OF assms] by linarith
  then show ?thesis
    using round_half_even_bounds [of m] round_half_even_bounds [of m'] by linarith
qed

lemma ulp32_pos: "0 < ulp32 x"
  by (simp add: ulp32_def powi_2_pos)

lemma round32_mag_eq: "round32_mag x = of_int (round_half_even (x / ulp32 x)) * ulp32 x"
  by (simp add: round32_mag_def)

lemma round32_mag_lower:
  assumes x: "0 < x" and e: "- 126 \<le> flog2 x"
  shows "2 powi flog2 x \<le> round32_mag x"
proof -
  have u: "ulp32 x = 2 powi (flog2 x - 23)" using e by (simp add: ulp32_def max_def)
  have p: "(2::rat) powi flog2 x = of_int (2 ^ 23) * ulp32 x"
    unfolding u by (simp only: powi_2_diff) (simp add: powi_2_pos [THEN less_imp_neq, THEN not_sym])
  have "of_int (2 ^ 23) * ulp32 x \<le> x" using flog2_bounds [OF x] p by simp
  then have "of_int (2 ^ 23) \<le> x / ulp32 x"
    using ulp32_pos [of x] by (simp add: pos_le_divide_eq)
  from round_half_even_mono [OF this]
  have "2 ^ 23 \<le> round_half_even (x / ulp32 x)" by (simp only: round_half_even_of_int)
  then have "(of_int (2 ^ 23) :: rat) \<le> of_int (round_half_even (x / ulp32 x))"
    by (simp only: of_int_le_iff)
  then have "of_int (2 ^ 23) * ulp32 x \<le> of_int (round_half_even (x / ulp32 x)) * ulp32 x"
    using ulp32_pos [of x] by (simp only: mult_le_cancel_right_pos)
  then show ?thesis by (simp only: p round32_mag_eq)
qed

lemma round32_mag_upper:
  assumes x: "0 < x"
  shows "round32_mag x \<le> 2 powi (max (flog2 x) (- 126) + 1)"
proof -
  let ?E = "max (flog2 x) (- 126)"
  have u: "ulp32 x = 2 powi (?E - 23)" by (simp add: ulp32_def)
  have p: "(2::rat) powi (?E + 1) = of_int (2 ^ 24) * ulp32 x"
    unfolding u by (simp only: powi_2_diff powi_2_add) (simp add: powi_2_pos [THEN less_imp_neq, THEN not_sym])
  have "x \<le> 2 powi (flog2 x + 1)" using flog2_bounds [OF x] by simp
  also have "\<dots> \<le> 2 powi (?E + 1)" by (rule powi_2_mono) simp
  finally have "x \<le> of_int (2 ^ 24) * ulp32 x" by (simp only: p)
  then have "x / ulp32 x \<le> of_int (2 ^ 24)"
    using ulp32_pos [of x] by (simp add: pos_divide_le_eq)
  from round_half_even_mono [OF this]
  have "round_half_even (x / ulp32 x) \<le> 2 ^ 24" by (simp only: round_half_even_of_int)
  then have "(of_int (round_half_even (x / ulp32 x)) :: rat) \<le> of_int (2 ^ 24)"
    by (simp only: of_int_le_iff)
  then have "of_int (round_half_even (x / ulp32 x)) * ulp32 x \<le> of_int (2 ^ 24) * ulp32 x"
    using ulp32_pos [of x] by (simp only: mult_le_cancel_right_pos)
  then show ?thesis by (simp only: p round32_mag_eq)
qed

lemma round32_mag_mono:
  assumes x: "0 < x" and xy: "x \<le> y"
  shows "round32_mag x \<le> round32_mag y"
proof -
  let ?Ex = "max (flog2 x) (- 126)" and ?Ey = "max (flog2 y) (- 126)"
  have y: "0 < y" using x xy by linarith
  have E: "?Ex \<le> ?Ey" using flog2_mono [OF x xy] by simp
  show ?thesis
  proof (cases "?Ex = ?Ey")
    case True
    then have u: "ulp32 x = ulp32 y" by (simp only: ulp32_def)
    have "x / ulp32 y \<le> y / ulp32 y"
      using xy ulp32_pos [of y] by (simp add: divide_le_cancel)
    from round_half_even_mono [OF this]
    have "(of_int (round_half_even (x / ulp32 y)) :: rat) \<le> of_int (round_half_even (y / ulp32 y))"
      by (simp only: of_int_le_iff)
    then have "of_int (round_half_even (x / ulp32 y)) * ulp32 y
        \<le> of_int (round_half_even (y / ulp32 y)) * ulp32 y"
      using ulp32_pos [of y] by (simp only: mult_le_cancel_right_pos)
    then show ?thesis by (simp only: round32_mag_eq u)
  next
    case False
    with E have lt: "?Ex + 1 \<le> ?Ey" by linarith
    then have fy: "?Ey = flog2 y" "- 126 \<le> flog2 y" by (simp_all add: max_def split: if_splits)
    have "round32_mag x \<le> 2 powi (?Ex + 1)" by (rule round32_mag_upper [OF x])
    also have "\<dots> \<le> 2 powi flog2 y" using lt fy(1) by (intro powi_2_mono) simp
    also have "\<dots> \<le> round32_mag y" by (rule round32_mag_lower [OF y fy(2)])
    finally show ?thesis .
  qed
qed

lemma round32_mag_nonneg: "0 < x \<Longrightarrow> 0 \<le> round32_mag x"
proof -
  assume x: "0 < x"
  have "0 \<le> x / ulp32 x" using x ulp32_pos [of x] by simp
  then have "(0::rat) \<le> of_int 0" "of_int 0 \<le> x / ulp32 x" by simp_all
  from round_half_even_mono [OF this(2)]
  have "0 \<le> round_half_even (x / ulp32 x)" by (simp only: round_half_even_of_int)
  then show ?thesis using ulp32_pos [of x] by (simp add: round32_mag_eq)
qed

lemma round32_between:
  assumes lo: "0 < lo" "lo \<le> x" and hi: "x \<le> hi"
    and rlo: "round32_mag lo = lo'" and rhi: "round32_mag hi = hi'" and fin: "hi' < 2 powi 128"
  shows "\<exists>v. round32 x = Finite v \<and> lo' \<le> v \<and> v \<le> hi'"
proof -
  have x: "0 < x" using lo by linarith
  have 1: "lo' \<le> round32_mag x" using round32_mag_mono [OF lo(1) lo(2)] rlo by simp
  have 2: "round32_mag x \<le> hi'" using round32_mag_mono [OF x hi] rhi by simp
  have "round32 x = Finite (round32_mag x)"
    using x 2 fin by (simp add: round32_def Let_def)
  then show ?thesis using 1 2 by simp
qed





subsection \<open>The recomputed budget of a slow host stays in range\<close>

lemma round32_mag_values:
  "round32_mag 1 = 1"
  "round32_mag 20 = 20"
  "round32_mag 2147483647 = 2147483648"
  "round32_mag 2147483648 = 2147483648"
  "round32_mag (5 / 536870912) = 5 / 536870912"
  "round32_mag (8738133 / 1125899906842624) = 8738133 / 1125899906842624"
  "round32_mag (8947848192 / 5) = 1789569664"
  by code_simp+

lemma float_1000_div_TPS: "fdiv (Finite 1000) (float_of_int TPS) = Finite (8738133 / 524288)"
  by code_simp

lemma recompute_bounds:
  assumes dt: "20 \<le> dt" "dt \<le> INT_MAX" and l: "0 < l" "l \<le> INT_MAX"
  shows "\<exists>c. recompute dt l cpt = Inr c \<and> 0 \<le> c \<and> c \<le> 1789569664"
proof -
  have big: "(2147483648::rat) < 2 powi 128" by simp
  have "\<exists>v. round32 (of_int dt) = Finite v \<and> 20 \<le> v \<and> v \<le> 2147483648"
    by (rule round32_between [where lo = 20 and hi = 2147483647])
       (use dt in \<open>simp_all add: round32_mag_values INT_MAX_def\<close>)
  then obtain a where a: "float_of_int dt = Finite a" "20 \<le> a" "a \<le> 2147483648"
    by (auto simp add: float_of_int_def)
  have "\<exists>v. round32 (of_int l) = Finite v \<and> 1 \<le> v \<and> v \<le> 2147483648"
    by (rule round32_between [where lo = 1 and hi = 2147483647])
       (use l in \<open>simp_all add: round32_mag_values INT_MAX_def\<close>)
  then obtain b where b: "float_of_int l = Finite b" "1 \<le> b" "b \<le> 2147483648"
    by (auto simp add: float_of_int_def)
  have q1: "5 / 536870912 \<le> a / b"
  proof -
    have "20 / 2147483648 \<le> a / b"
      by (rule frac_le) (use a b in simp_all)
    then show ?thesis by simp
  qed
  have q2: "a / b \<le> 2147483648"
  proof -
    have "a / b \<le> 2147483648 / 1"
      by (rule frac_le) (use a b in simp_all)
    then show ?thesis by simp
  qed
  have "\<exists>v. round32 (a / b) = Finite v \<and> 5 / 536870912 \<le> v \<and> v \<le> 2147483648"
    by (rule round32_between [where lo = "5 / 536870912" and hi = 2147483648])
       (use q1 q2 in \<open>simp_all add: round32_mag_values\<close>)
  then obtain m where m: "round32 (a / b) = Finite m" "5 / 536870912 \<le> m" "m \<le> 2147483648"
    by auto
  have mspc: "fdiv (float_of_int dt) (float_of_int l) = Finite m"
    using a b m by simp
  have norm: "isnormal (Finite m)"
  proof -
    have "(2::rat) powi (- 126) \<le> 2 powi (- 27)" by (rule powi_2_mono) simp
    also have "\<dots> \<le> 5 / 536870912" by (simp add: power_int_def power_divide)
    finally have "(2::rat) powi (- 126) \<le> 5 / 536870912" .
    then show ?thesis using m(2) by simp
  qed
  let ?c0 = "8738133 / 524288 :: rat"
  have m0: "0 < m" using m(2) by simp
  have r1: "8738133 / 1125899906842624 \<le> ?c0 / m"
  proof -
    have "?c0 / 2147483648 \<le> ?c0 / m"
      by (rule frac_le) (use m m0 in simp_all)
    then show ?thesis by simp
  qed
  have r2: "?c0 / m \<le> 8947848192 / 5"
  proof -
    have "?c0 / m \<le> ?c0 / (5 / 536870912)"
      by (rule frac_le) (use m in simp_all)
    then show ?thesis by simp
  qed
  have "\<exists>v. round32 (?c0 / m) = Finite v \<and> 8738133 / 1125899906842624 \<le> v \<and> v \<le> 1789569664"
    by (rule round32_between [where lo = "8738133 / 1125899906842624" and hi = "8947848192 / 5"])
       (use r1 r2 in \<open>simp_all add: round32_mag_values\<close>)
  then obtain r where r: "round32 (?c0 / m) = Finite r" "0 \<le> r" "r \<le> 1789569664"
    by auto
  have res: "fdiv (Finite ?c0) (Finite m) = Finite r"
    using r(1) m0 by simp
  have fl: "0 \<le> \<lfloor>r\<rfloor>" "\<lfloor>r\<rfloor> \<le> 1789569664"
    using r(2,3) by (simp_all add: floor_le_iff) 
  have "recompute dt l cpt = int_of_float (Finite r)"
    by (simp only: recompute_def mspc Let_def norm if_True float_1000_div_TPS res)
  also have "\<dots> = Inr \<lfloor>r\<rfloor>"
    using fl r(2) by (simp add: truncate_rat_def Let_def INT_MIN_def INT_MAX_def)
  finally show ?thesis using fl by simp
qed

lemma slow_cost_is_normal:
  assumes dt: "20 \<le> dt" "dt \<le> INT_MAX" and l: "0 < l" "l \<le> INT_MAX"
  shows "isnormal (fdiv (float_of_int dt) (float_of_int l))"
proof -
  have "\<exists>v. round32 (of_int dt) = Finite v \<and> 20 \<le> v \<and> v \<le> 2147483648"
    by (rule round32_between [where lo = 20 and hi = 2147483647])
       (use dt in \<open>simp_all add: round32_mag_values INT_MAX_def\<close>)
  then obtain a where a: "float_of_int dt = Finite a" "20 \<le> a" "a \<le> 2147483648"
    by (auto simp add: float_of_int_def)
  have "\<exists>v. round32 (of_int l) = Finite v \<and> 1 \<le> v \<and> v \<le> 2147483648"
    by (rule round32_between [where lo = 1 and hi = 2147483647])
       (use l in \<open>simp_all add: round32_mag_values INT_MAX_def\<close>)
  then obtain b where b: "float_of_int l = Finite b" "1 \<le> b" "b \<le> 2147483648"
    by (auto simp add: float_of_int_def)
  have q1: "5 / 536870912 \<le> a / b"
  proof -
    have "20 / 2147483648 \<le> a / b"
      by (rule frac_le) (use a b in simp_all)
    then show ?thesis by simp
  qed
  have q2: "a / b \<le> 2147483648"
  proof -
    have "a / b \<le> 2147483648 / 1"
      by (rule frac_le) (use a b in simp_all)
    then show ?thesis by simp
  qed
  have "\<exists>v. round32 (a / b) = Finite v \<and> 5 / 536870912 \<le> v \<and> v \<le> 2147483648"
    by (rule round32_between [where lo = "5 / 536870912" and hi = 2147483648])
       (use q1 q2 in \<open>simp_all add: round32_mag_values\<close>)
  then obtain m where m: "round32 (a / b) = Finite m" "5 / 536870912 \<le> m" "m \<le> 2147483648"
    by auto
  have mspc: "fdiv (float_of_int dt) (float_of_int l) = Finite m"
    using a b m by simp
  have "(2::rat) powi (- 126) \<le> 2 powi (- 27)" by (rule powi_2_mono) simp
  also have "\<dots> \<le> 5 / 536870912" by (simp add: power_int_def power_divide)
  finally have "(2::rat) powi (- 126) \<le> 5 / 536870912" .
  then show ?thesis using m(2) by (simp add: mspc)
qed

section \<open>The budget computation\<close>

subsection \<open>The branches of the adjustment\<close>

lemma tdiv_1: "tdiv a 1 = a"
proof -
  have "sgn a * \<bar>a\<bar> = a" by (simp add: mult.commute [of "sgn a"] abs_mult_sgn)
  then show ?thesis by (simp add: tdiv_def)
qed
lemma TPF_eq: "TPF = 1"
  by (simp add: TPF_def)
lemma measured_tps_Inr:
  assumes "measured_tps dt = Inr tps"
  shows "tps = tdiv 1000 dt \<and> dt \<noteq> 0 \<and> INT_MIN \<le> dt \<and> dt \<le> INT_MAX"
proof -
  have d: "c_div dt TPF = c_int dt" by (simp add: c_div_def TPF_eq tdiv_1)
  show ?thesis
  proof (cases "INT_MIN \<le> dt \<and> dt \<le> INT_MAX")
    case False
    then have "c_int dt = Inl SignedOverflow" by (auto simp add: c_int_def)
    then have "measured_tps dt = Inl SignedOverflow"
      by (simp add: measured_tps_def d c_bind_def)
    with assms show ?thesis by simp
  next
    case True
    then have "c_int dt = Inr dt" by (simp add: c_int_def)
    then have m: "measured_tps dt = c_div 1000 dt"
      by (simp add: measured_tps_def d c_bind_def)
    show ?thesis
    proof (cases "dt = 0")
      case True
      with m assms show ?thesis by (simp add: c_div_def)
    next
      case False
      with m assms have "c_int (tdiv 1000 dt) = Inr tps" by (simp add: c_div_def)
      then have "tps = tdiv 1000 dt" by (simp add: c_int_def split: if_splits)
      with True False show ?thesis by simp
    qed
  qed
qed

lemma measured_tps_pos:
  assumes "0 < dt" "dt \<le> INT_MAX"
  shows "measured_tps dt = Inr (1000 div dt)"
proof -
  have 1: "c_div dt TPF = Inr dt"
    using assms by (simp add: c_div_def TPF_eq tdiv_1 c_int_def INT_MIN_def INT_MAX_def)
  have "0 \<le> 1000 div dt" using assms by (simp add: pos_imp_zdiv_nonneg_iff)
  moreover have "1000 div dt \<le> 1000" using assms by (simp add: zdiv_mono2 [of 1000 1 dt, simplified])
  ultimately have 2: "c_div 1000 dt = Inr (1000 div dt)"
    using assms by (simp add: c_div_def tdiv_nonneg c_int_def INT_MIN_def INT_MAX_def)
  show ?thesis by (simp add: measured_tps_def c_bind_def 1 2)
qed

lemma tdiv_neg_le_0: "0 \<le> a \<Longrightarrow> b < 0 \<Longrightarrow> tdiv a b \<le> 0"
  by (cases "a = 0") (simp_all add: tdiv_def pos_imp_zdiv_nonneg_iff)

lemma measured_tps_positive:
  assumes "measured_tps dt = Inr tps" "0 < tps"
  shows "0 < dt \<and> dt \<le> INT_MAX \<and> tps = 1000 div dt"
proof -
  from measured_tps_Inr [OF assms(1)]
  have t: "tps = tdiv 1000 dt" and d: "dt \<noteq> 0" "dt \<le> INT_MAX" by simp_all
  have "0 < dt"
  proof (rule ccontr)
    assume "\<not> 0 < dt"
    with d have "dt < 0" by simp
    then have "tdiv 1000 dt \<le> 0" by (intro tdiv_neg_le_0) simp_all
    with t assms(2) show False by simp
  qed
  then show ?thesis using t d by (simp add: tdiv_nonneg)
qed

lemma slow_dt:
  assumes "0 < dt" "1000 div dt \<le> (50::int)"
  shows "20 \<le> dt"
proof (rule ccontr)
  assume "\<not> 20 \<le> dt"
  then have "dt \<le> 19" by simp
  from zdiv_mono2 [of 1000 dt 19] assms(1) this have "(1000::int) div 19 \<le> 1000 div dt" by simp
  then show False using assms(2) by simp
qed

lemma c_add_Inr: "INT_MIN \<le> a + b \<Longrightarrow> a + b \<le> INT_MAX \<Longrightarrow> c_add a b = Inr (a + b)"
  by (simp add: c_add_def c_int_def)

lemma c_bind_Inr: "c_bind (Inr x) f = f x"
  by (simp add: c_bind_def)

lemma c_bind_Inl: "c_bind (Inl e) f = Inl e"
  by (simp add: c_bind_def)

lemma clamp_dt_pos: "0 \<le> dt \<Longrightarrow> 0 < clamp_dt dt"
  by (simp add: clamp_dt_def)

lemma next_budget_fixed:
  assumes "0 \<le> hz" "hz \<le> INT_MAX" "0 \<le> dt"
  shows "next_budget False hz l dt =
         Inr (hz div 60 div clamp_dt dt, hz div 60 - hz div 60 div clamp_dt dt * clamp_dt dt, l)"
  using base_budget_value [OF assms(1,2) clamp_dt_pos [OF assms(3)]]
  by (simp add: next_budget_def c_bind_Inr)

lemma next_budget_adaptive:
  assumes "0 \<le> hz" "hz \<le> INT_MAX" "0 < clamp_dt dt"
  shows "next_budget True hz l dt =
         autoadjust (clamp_dt dt) l
           (hz div 60 div clamp_dt dt, hz div 60 - hz div 60 div clamp_dt dt * clamp_dt dt)"
  using base_budget_value [OF assms]
  by (simp add: next_budget_def c_bind_Inr)

lemma autoadjust_in_band:
  assumes "measured_tps d = Inr tps" "50 < tps" "tps < 70"
    and "INT_MIN \<le> l" "l + 1000 \<le> INT_MAX"
  shows "autoadjust d l (c, e) = Inr (l, 1000, l + 1000)"
proof -
  have 1: "c_add 0 CYCLE_AUTOADJUST_ADD = Inr 1000"
    by (simp add: c_add_def c_int_def CYCLE_AUTOADJUST_ADD_def INT_MIN_def INT_MAX_def)
  have 2: "c_add l 1000 = Inr (l + 1000)"
    using assms(4,5) by (simp add: c_add_Inr INT_MIN_def)
  show ?thesis
    using assms(2,3) by (simp add: autoadjust_def assms(1) c_bind_Inr TPS_eq CYCLE_AUTOADJUST_TOLERANCE_def 1 2)
qed

lemma autoadjust_slow:
  assumes "measured_tps d = Inr tps" "tps \<le> 50" "recompute d l c = Inr c'"
    and "INT_MIN \<le> c'" "c' + 1000 \<le> INT_MAX"
  shows "autoadjust d l (c, e) = Inr (c', 1000, c' + 1000)"
proof -
  have 1: "c_add 0 CYCLE_AUTOADJUST_ADD = Inr 1000"
    by (simp add: c_add_def c_int_def CYCLE_AUTOADJUST_ADD_def INT_MIN_def INT_MAX_def)
  have 2: "c_add c' 1000 = Inr (c' + 1000)"
    using assms(4,5) by (simp add: c_add_Inr INT_MIN_def)
  show ?thesis
    using assms(2) by (simp add: autoadjust_def assms(1,3) c_bind_Inr TPS_eq CYCLE_AUTOADJUST_TOLERANCE_def 1 2)
qed

lemma autoadjust_fast:
  assumes "measured_tps d = Inr tps" "70 \<le> tps"
    and "INT_MIN \<le> e" "INT_MIN \<le> c + e" "c + e + 1000 \<le> INT_MAX" "e + 1000 \<le> INT_MAX"
  shows "autoadjust d l (c, e) = Inr (c, e + 1000, c + e + 1000)"
proof -
  have 1: "c_add e CYCLE_AUTOADJUST_ADD = Inr (e + 1000)"
    using assms(3,6) by (simp add: c_add_Inr CYCLE_AUTOADJUST_ADD_def INT_MIN_def)
  have 2: "c_add c (e + 1000) = Inr (c + e + 1000)"
    using assms(4,5) c_add_Inr [of c "e + 1000"] by (simp add: INT_MIN_def add.assoc)
  show ?thesis
    using assms(2) by (simp add: autoadjust_def assms(1) c_bind_Inr TPS_eq CYCLE_AUTOADJUST_TOLERANCE_def 1 2)
qed

subsection \<open>No division by zero\<close>

lemma c_int_ndz: "c_int x \<noteq> Inl DivByZero"
  by (simp add: c_int_def)

lemma c_div_ndz: "b \<noteq> 0 \<Longrightarrow> c_div a b \<noteq> Inl DivByZero"
  by (simp add: c_div_def c_int_ndz)

lemma c_bind_ndz:
  assumes "m \<noteq> Inl DivByZero" "\<And>x. m = Inr x \<Longrightarrow> f x \<noteq> Inl DivByZero"
  shows "c_bind m f \<noteq> Inl DivByZero"
  using assms by (cases m) (simp_all add: c_bind_def)

lemma int_of_float_ndz: "int_of_float f \<noteq> Inl DivByZero"
  by (cases f) (simp_all add: Let_def)

lemma base_budget_ndz:
  assumes "d \<noteq> 0"
  shows "base_budget hz d \<noteq> Inl DivByZero"
  unfolding base_budget_def
  by (intro c_bind_ndz c_div_ndz assms)
     (simp_all add: TPS_eq c_mul_def c_sub_def c_int_ndz)

lemma measured_tps_ndz:
  assumes "d \<noteq> 0"
  shows "measured_tps d \<noteq> Inl DivByZero"
  unfolding measured_tps_def
proof (rule c_bind_ndz)
  show "c_div d TPF \<noteq> Inl DivByZero" by (rule c_div_ndz) (simp add: TPF_eq)
next
  fix x assume "c_div d TPF = Inr x"
  then have "x = d" by (simp add: c_div_def TPF_eq tdiv_1 c_int_def split: if_splits)
  then show "c_div 1000 x \<noteq> Inl DivByZero" using assms by (simp add: c_div_ndz)
qed

lemma autoadjust_ndz:
  assumes "d \<noteq> 0"
  shows "autoadjust d l b \<noteq> Inl DivByZero"
proof -
  obtain c e where b: "b = (c, e)" by (cases b)
  have tail: "c_bind (c_add e' CYCLE_AUTOADJUST_ADD) (\<lambda>e''.
      c_bind (c_add c' e'') (\<lambda>l'. Inr (c', e'', l'))) \<noteq> Inl DivByZero" for c' e' :: int
    by (intro c_bind_ndz) (simp_all add: c_add_def c_int_ndz)
  have rec: "c_bind (recompute d l c) (\<lambda>c. Inr (c, 0 :: int)) \<noteq> Inl DivByZero"
    by (intro c_bind_ndz) (simp_all add: recompute_def Let_def int_of_float_ndz)
  show ?thesis
    unfolding autoadjust_def b prod.case
    apply (rule c_bind_ndz [OF measured_tps_ndz [OF assms]])
    apply (rule c_bind_ndz)
     apply (simp add: rec)
    apply (simp add: tail split: prod.splits)
    done
qed

lemma clamp_dt_nonzero: "clamp_dt dt \<noteq> 0"
  by (simp add: clamp_dt_def)

lemma next_budget_ndz: "next_budget aa hz l dt \<noteq> Inl DivByZero"
  unfolding next_budget_def
  by (intro c_bind_ndz base_budget_ndz clamp_dt_nonzero)
     (simp add: autoadjust_ndz clamp_dt_nonzero)

subsection \<open>The budget claims\<close>

lemma div60_bounds:
  assumes "0 \<le> hz" "hz \<le> INT_MAX" "0 < d"
  shows "0 \<le> hz div 60 div d" "hz div 60 div d \<le> 35791394"
    "0 \<le> hz div 60 - hz div 60 div d * d" "hz div 60 - hz div 60 div d * d \<le> 35791394"
proof -
  let ?q = "hz div 60"
  have q0: "0 \<le> ?q" using assms(1) by (simp add: pos_imp_zdiv_nonneg_iff)
  have q1: "?q \<le> 35791394" using assms(2) by (simp add: INT_MAX_def)
  show c0: "0 \<le> ?q div d" using q0 assms(3) by (simp add: pos_imp_zdiv_nonneg_iff)
  have "?q div d \<le> ?q" using q0 assms(3) zdiv_mono2 [of ?q 1 d] by simp
  then show "?q div d \<le> 35791394" using q1 by simp
  have m: "?q - ?q div d * d = ?q mod d" by (simp add: minus_div_mult_eq_mod)
  show "0 \<le> ?q - ?q div d * d" using assms(3) by (simp add: m)
  have "?q mod d \<le> ?q" using q0 assms(3) by (simp add: zmod_le_nonneg_dividend)
  then show "?q - ?q div d * d \<le> 35791394" using q1 by (simp add: m)
qed

text \<open>
  C1, as the code has it. For every elapsed time \<open>dt \<ge> 0\<close> the budget computation, fixed or
  adaptive, never divides by zero (the elapsed time is clamped to at least 1). The
  per-millisecond cycle count of the base budget is the integer
  \<^verbatim>\<open>FOX32_CPU_HZ / TPS / dt\<close>, which is never negative, and it is positive exactly when the
  clamped elapsed time is at most \<^verbatim>\<open>FOX32_CPU_HZ / TPS\<close>: after a longer stall it is 0
  and the whole budget of the tick is the leftover of the last slice.
\<close>

theorem budget_never_divides_by_zero:
  assumes "0 \<le> hz" "hz \<le> INT_MAX" "0 \<le> dt"
  shows "next_budget aa hz l dt \<noteq> Inl DivByZero
       \<and> next_budget False hz l dt =
           Inr (hz div 60 div clamp_dt dt,
                hz div 60 - hz div 60 div clamp_dt dt * clamp_dt dt, l)
       \<and> 0 \<le> hz div 60 div clamp_dt dt
       \<and> (0 < hz div 60 div clamp_dt dt \<longleftrightarrow> clamp_dt dt \<le> hz div 60)"
proof -
  have d: "0 < clamp_dt dt" by (rule clamp_dt_pos [OF assms(3)])
  show ?thesis
    using next_budget_ndz [of aa hz l dt] next_budget_fixed [OF assms]
      div60_bounds(1) [OF assms(1,2) d] d
    by (simp add: pos_imp_zdiv_pos_iff)
qed

theorem budget_never_divides_by_zero_witness:
  "(0::int) \<le> 64000000 \<and> 64000000 \<le> INT_MAX \<and> (0::int) \<le> 0
   \<and> next_budget True 64000000 1 0 \<noteq> Inl DivByZero
   \<and> next_budget False 64000000 1 0 = Inr (1066666, 0, 1)"
  using budget_never_divides_by_zero [of 64000000 0 True 1]
  by (simp add: INT_MAX_def clamp_dt_def)

text \<open>
  C1 as stated fails: with \<^verbatim>\<open>FOX32_CPU_HZ\<close> = 64000000 and an elapsed time of 1066667 ms the
  per-millisecond cycle count is 0, not positive.
\<close>

theorem long_stall_gives_zero_slice_budget:
  "next_budget False 64000000 1 1066667 = Inr (0, 1066666, 1)"
  using next_budget_fixed [of 64000000 1066667 1]
  by (simp add: INT_MAX_def clamp_dt_def)

text \<open>
  C2, as the code has it. For \<^verbatim>\<open>FOX32_CPU_HZ\<close> = 64000000, 60 ticks per second and 16 ms
  elapsed the base per-millisecond budget is 66666 cycles and the leftover is
  1066666 - 66666 * 16 = 10 cycles; the leftover goes entirely to the last of the 16
  slices, which gets 66676 cycles.
\<close>

theorem scenario_budget:
  "next_budget False 64000000 l 16 = Inr (66666, 10, l)
   \<and> map (slice_budget 16 66666 10) [0..15] = replicate 15 66666 @ [66676]"
proof -
  have "next_budget False 64000000 l 16 = Inr (66666, 10, l)"
    using next_budget_fixed [of 64000000 16 l]
    by (simp add: INT_MAX_def clamp_dt_def)
  moreover have "map (slice_budget 16 66666 10) [0..15] = replicate 15 66666 @ [66676]"
    by (simp add: slice_budget_def upto_rec1 numeral_eq_Suc)
  ultimately show ?thesis by simp
qed

text \<open>C2 as stated fails: the leftover of the scenario is not 666 cycles.\<close>

theorem scenario_leftover_is_not_666:
  "next_budget False 64000000 1 16 \<noteq> Inr (66666, 666, 1)"
  using next_budget_fixed [of 64000000 16 1]
  by (simp add: INT_MAX_def clamp_dt_def)

text \<open>
  C3, as the code has it. In adaptive mode, for a target frequency that is a non-negative
  \<^verbatim>\<open>int\<close>, whenever the measured ticks per second lie strictly between \<open>TPS - 10\<close> and
  \<open>TPS + 10\<close> (50 and 70) and the previous estimate plus the margin of 1000 cycles is at
  most \<open>INT_MAX\<close>, the previous estimate is the per-millisecond budget of this tick
  unchanged, the leftover of the base budget is dropped and replaced by the margin of 1000
  cycles, and the estimate that is kept for the next call is the previous one plus 1000.
  Nothing is said of an estimate above \<open>INT_MAX - 1000\<close>, where the sum does not fit the
  \<^verbatim>\<open>int\<close>.
\<close>

theorem in_band_keeps_budget_and_adds_margin:
  assumes "0 \<le> hz" "hz \<le> INT_MAX"
    and "measured_tps (clamp_dt dt) = Inr tps"
    and "TPS - CYCLE_AUTOADJUST_TOLERANCE < tps" "tps < TPS + CYCLE_AUTOADJUST_TOLERANCE"
    and "INT_MIN \<le> l" "l + CYCLE_AUTOADJUST_ADD \<le> INT_MAX"
  shows "next_budget True hz l dt = Inr (l, CYCLE_AUTOADJUST_ADD, l + CYCLE_AUTOADJUST_ADD)"
proof -
  have b: "50 < tps" "tps < 70"
    using assms(4,5) by (simp_all add: TPS_eq CYCLE_AUTOADJUST_TOLERANCE_def)
  from measured_tps_positive [OF assms(3)] b have d: "0 < clamp_dt dt" by simp
  show ?thesis
    using autoadjust_in_band [OF assms(3) b assms(6)] assms(7)
    by (simp add: next_budget_adaptive [OF assms(1,2) d] CYCLE_AUTOADJUST_ADD_def)
qed

theorem in_band_keeps_budget_and_adds_margin_witness:
  "(0::int) \<le> 64000000 \<and> 64000000 \<le> INT_MAX \<and> measured_tps (clamp_dt 16) = Inr 62
   \<and> TPS - CYCLE_AUTOADJUST_TOLERANCE < 62 \<and> 62 < TPS + CYCLE_AUTOADJUST_TOLERANCE
   \<and> INT_MIN \<le> 5000 \<and> 5000 + CYCLE_AUTOADJUST_ADD \<le> INT_MAX
   \<and> next_budget True 64000000 5000 16 = Inr (5000, 1000, 6000)"
proof -
  have m: "measured_tps (clamp_dt 16) = Inr 62"
    using measured_tps_pos [of 16] by (simp add: clamp_dt_def INT_MAX_def)
  show ?thesis
    using in_band_keeps_budget_and_adds_margin [of 64000000 16 62 5000] m
    by (simp add: INT_MAX_def INT_MIN_def TPS_eq CYCLE_AUTOADJUST_TOLERANCE_def
        CYCLE_AUTOADJUST_ADD_def)
qed

text \<open>
  C3 as stated fails: at 16 ms elapsed the measured 62 ticks per second are within 10% of
  the 60 of the target, and the estimate kept for the next call is 1001, not the 1 it was
  before the call.
\<close>

theorem in_band_estimate_grows:
  "measured_tps (clamp_dt 16) = Inr 62 \<and> next_budget True 64000000 1 16 = Inr (1, 1000, 1001)"
proof -
  have m: "measured_tps (clamp_dt 16) = Inr 62"
    using measured_tps_pos [of 16] by (simp add: clamp_dt_def INT_MAX_def)
  have d: "clamp_dt 16 = 16" by (simp add: clamp_dt_def)
  have "autoadjust 16 1 (c, e) = Inr (1, 1000, 1 + 1000)" for c e
    by (rule autoadjust_in_band [where tps = 62])
       (use m in \<open>simp_all add: d INT_MIN_def INT_MAX_def\<close>)
  then show ?thesis
    using m next_budget_adaptive [of 64000000 16 1] by (simp add: d INT_MAX_def)
qed









lemma next_budget_positive_estimate:
  assumes hz: "0 \<le> hz" "hz \<le> INT_MAX" and dt: "0 \<le> dt" "dt \<le> INT_MAX"
    and l: "0 < l" "l \<le> INT_MAX - CYCLE_AUTOADJUST_ADD"
  shows "\<exists>c e l'. next_budget True hz l dt = Inr (c, e, l') \<and> 0 < l'"
proof -
  let ?d = "clamp_dt dt"
  let ?c = "hz div 60 div ?d" and ?e = "hz div 60 - hz div 60 div ?d * ?d"
  have d0: "0 < ?d" by (rule clamp_dt_pos [OF dt(1)])
  have d1: "?d \<le> INT_MAX" using dt(2) by (simp add: clamp_dt_def INT_MAX_def)
  have m: "measured_tps ?d = Inr (1000 div ?d)" by (rule measured_tps_pos [OF d0 d1])
  have nb: "next_budget True hz l dt = autoadjust ?d l (?c, ?e)"
    by (rule next_budget_adaptive [OF hz d0])
  note b = div60_bounds [OF hz d0]
  consider (band) "50 < 1000 div ?d" "1000 div ?d < 70"
    | (slow) "1000 div ?d \<le> 50" | (fast) "70 \<le> 1000 div ?d"
    by linarith
  then show ?thesis
  proof cases
    case band
    have "autoadjust ?d l (?c, ?e) = Inr (l, 1000, l + 1000)"
      by (rule autoadjust_in_band [OF m band])
         (use l in \<open>simp_all add: INT_MIN_def CYCLE_AUTOADJUST_ADD_def\<close>)
    then show ?thesis using nb l(1) by simp
  next
    case slow
    have d20: "20 \<le> ?d" by (rule slow_dt [OF d0 slow])
    have l1: "l \<le> INT_MAX" using l(2) by (simp add: CYCLE_AUTOADJUST_ADD_def)
    from recompute_bounds [OF d20 d1 l(1) l1, of ?c]
    obtain c' where c': "recompute ?d l ?c = Inr c'" "0 \<le> c'" "c' \<le> 1789569664" by auto
    have "autoadjust ?d l (?c, ?e) = Inr (c', 1000, c' + 1000)"
      by (rule autoadjust_slow [OF m slow c'(1)])
         (use c' in \<open>simp_all add: INT_MIN_def INT_MAX_def\<close>)
    then show ?thesis using nb c'(2) by simp
  next
    case fast
    have "autoadjust ?d l (?c, ?e) = Inr (?c, ?e + 1000, ?c + ?e + 1000)"
      by (rule autoadjust_fast [OF m fast])
         (use b in \<open>simp_all add: INT_MIN_def INT_MAX_def\<close>)
    then show ?thesis using nb b(1,3) by simp
  qed
qed

lemma estimates_append:
  "estimates hz l (xs @ ys) = c_bind (estimates hz l xs) (\<lambda>l'. estimates hz l' ys)"
proof (induction xs arbitrary: l)
  case Nil
  show ?case by (simp add: c_bind_Inr)
next
  case (Cons x xs)
  show ?case
  proof (cases "next_budget True hz l x")
    case (Inl e)
    then show ?thesis by (simp add: c_bind_Inl)
  next
    case (Inr r)
    then show ?thesis by (cases r) (simp add: c_bind_Inr Cons.IH)
  qed
qed

lemma next_budget_16:
  assumes "INT_MIN \<le> l" "l + 1000 \<le> INT_MAX"
  shows "next_budget True 64000000 l 16 = Inr (l, 1000, l + 1000)"
proof -
  have m: "measured_tps (clamp_dt 16) = Inr 62"
    using measured_tps_pos [of 16] by (simp add: clamp_dt_def INT_MAX_def)
  have d: "clamp_dt 16 = 16" by (simp add: clamp_dt_def)
  have "autoadjust 16 l (c, e) = Inr (l, 1000, l + 1000)" for c e
    by (rule autoadjust_in_band [where tps = 62]) (use m assms in \<open>simp_all add: d\<close>)
  then show ?thesis
    using next_budget_adaptive [of 64000000 16 l] by (simp add: d INT_MAX_def)
qed

lemma estimates_in_band:
  assumes "INT_MIN \<le> l" "l + 1000 * int n \<le> INT_MAX"
  shows "estimates 64000000 l (replicate n 16) = Inr (l + 1000 * int n)"
  using assms
proof (induction n arbitrary: l)
  case 0
  show ?case by simp
next
  case (Suc n)
  have 1: "next_budget True 64000000 l 16 = Inr (l, 1000, l + 1000)"
    by (rule next_budget_16) (use Suc.prems in simp_all)
  have "estimates 64000000 (l + 1000) (replicate n 16) = Inr (l + 1000 + 1000 * int n)"
    by (rule Suc.IH) (use Suc.prems in \<open>simp_all add: algebra_simps\<close>)
  then show ?case by (simp add: 1 c_bind_Inr algebra_simps)
qed

lemma next_budget_16_overflow:
  "next_budget True 64000000 2147483001 16 = Inl SignedOverflow"
proof -
  have m: "measured_tps 16 = Inr 62"
    using measured_tps_pos [of 16] by (simp add: INT_MAX_def)
  have d: "clamp_dt 16 = 16" by (simp add: clamp_dt_def)
  have "autoadjust 16 2147483001 (c, e) = Inl SignedOverflow" for c e
    by (simp add: autoadjust_def m c_bind_Inr c_bind_Inl TPS_eq CYCLE_AUTOADJUST_TOLERANCE_def
        CYCLE_AUTOADJUST_ADD_def c_add_def c_int_def INT_MAX_def INT_MIN_def)
  then show ?thesis
    using next_budget_adaptive [of 64000000 16 2147483001] by (simp add: d INT_MAX_def)
qed

text \<open>
  C9. The estimate \<^verbatim>\<open>last_cycle_count\<close> does not stay positive for every sequence of
  elapsed times: line 186 adds the margin of 1000 cycles to it in every call and nothing
  bounds it from above. With \<^verbatim>\<open>FOX32_CPU_HZ\<close> 64000000, from the initial estimate 1, after
  2147483 calls with 16 ms elapsed each the estimate is 2147483001, and the next such call
  adds 1000 to it, which overflows the \<^verbatim>\<open>int\<close>: the update has no defined result, so no
  positive one.
\<close>

theorem estimate_overflows_after_in_band_ticks:
  "estimates 64000000 1 (replicate 2147483 16) = Inr 2147483001
   \<and> estimates 64000000 1 (replicate 2147483 16 @ [16]) = Inl SignedOverflow"
proof -
  have 1: "estimates 64000000 1 (replicate 2147483 16) = Inr 2147483001"
    using estimates_in_band [of 1 2147483] by (simp add: INT_MIN_def INT_MAX_def)
  show ?thesis
    by (simp add: estimates_append 1 c_bind_Inr c_bind_Inl next_budget_16_overflow)
qed

section \<open>The loops of a tick\<close>

subsection \<open>One step of the inner loop, and a rule for what holds when it ends\<close>

lemma while_cycles_exit: "c \<le> 0 \<Longrightarrow> while_cycles h i c s = Some (c, s)"
  by (subst while_cycles.simps) simp

lemma while_cycles_ok:
  assumes "0 < c" "fox32_resume h (mach s) c = ((FOX32_ERR_OK, x), m1)"
  shows "while_cycles h i c s =
         while_cycles h i (sub_executed c x)
           (s\<lparr>mach := m1, trace := trace s @ [Resume i c x FOX32_ERR_OK]\<rparr>)"
  by (subst while_cycles.simps) (simp add: assms)

lemma while_cycles_fault:
  assumes "0 < c" "fox32_resume h (mach s) c = ((e, x), m1)" "e \<noteq> FOX32_ERR_OK"
    and "fox32_recover h (if debug m1 then puts_strerr h m1 e else m1) e = (r, m3)"
  shows "while_cycles h i c s =
         (if r \<noteq> FOX32_ERR_OK
          then Some (c, s\<lparr>mach := m3,
                 trace := trace s @ Resume i c x e # (if debug m1 then [Puts e] else []) @ [Recover i r]\<rparr>)
          else while_cycles h i (sub_executed c x)
                 (s\<lparr>mach := m3,
                    trace := trace s @ Resume i c x e # (if debug m1 then [Puts e] else []) @ [Recover i r]\<rparr>))"
proof (cases "debug m1")
  case True
  with assms(4) have "fox32_recover h (puts_strerr h m1 e) e = (r, m3)" by simp
  then show ?thesis
    by (subst while_cycles.simps) (simp add: assms(1,2,3) True Let_def)
next
  case False
  with assms(4) have "fox32_recover h m1 e = (r, m3)" by simp
  then show ?thesis
    by (subst while_cycles.simps) (simp add: assms(1,2,3) False Let_def)
qed

lemma while_cycles_cases [consumes 1, case_names exit ok fail recovered]:
  assumes run: "while_cycles h i c s = Some (c', s')"
    and exit: "\<And>c s. c \<le> 0 \<Longrightarrow> P c s c s"
    and ok: "\<And>c s x m1 c' s'. 0 < c \<Longrightarrow> fox32_resume h (mach s) c = ((FOX32_ERR_OK, x), m1) \<Longrightarrow>
        P (sub_executed c x) (s\<lparr>mach := m1, trace := trace s @ [Resume i c x FOX32_ERR_OK]\<rparr>) c' s'
        \<Longrightarrow> P c s c' s'"
    and fail: "\<And>c s e x m1 r m3. 0 < c \<Longrightarrow> fox32_resume h (mach s) c = ((e, x), m1) \<Longrightarrow>
        e \<noteq> FOX32_ERR_OK \<Longrightarrow>
        fox32_recover h (if debug m1 then puts_strerr h m1 e else m1) e = (r, m3) \<Longrightarrow>
        r \<noteq> FOX32_ERR_OK \<Longrightarrow>
        P c s c (s\<lparr>mach := m3,
          trace := trace s @ Resume i c x e # (if debug m1 then [Puts e] else []) @ [Recover i r]\<rparr>)"
    and recovered: "\<And>c s e x m1 m3 c' s'. 0 < c \<Longrightarrow> fox32_resume h (mach s) c = ((e, x), m1) \<Longrightarrow>
        e \<noteq> FOX32_ERR_OK \<Longrightarrow>
        fox32_recover h (if debug m1 then puts_strerr h m1 e else m1) e = (FOX32_ERR_OK, m3) \<Longrightarrow>
        P (sub_executed c x) (s\<lparr>mach := m3,
          trace := trace s @ Resume i c x e # (if debug m1 then [Puts e] else []) @ [Recover i FOX32_ERR_OK]\<rparr>) c' s'
        \<Longrightarrow> P c s c' s'"
  shows "P c s c' s'"
proof -
  have "h' = h \<longrightarrow> i' = i \<longrightarrow> P c0 s0 (fst y) (snd y)"
    if "while_cycles h' i' c0 s0 = Some y" for h' i' c0 s0 y
  proof (rule while_cycles.raw_induct
      [where P = "\<lambda>h' i' c s y. h' = h \<longrightarrow> i' = i \<longrightarrow> P c s (fst y) (snd y)", OF _ that],
      goal_cases)
    case (1 wc h' i' c s y)
    show ?case
    proof (intro impI)
      assume hi: "h' = h" "i' = i"
      show "P c s (fst y) (snd y)"
      proof (cases "0 < c")
        case False
        with 1(2) have "y = (c, s)" by simp
        then show ?thesis using exit [of c s] False by simp
      next
        case True
        obtain e x m1 where r: "fox32_resume h (mach s) c = ((e, x), m1)"
          by (metis surj_pair)
        show ?thesis
        proof (cases "e = FOX32_ERR_OK")
          case ok': True
          with 1(2) True r hi
          have "wc h i (sub_executed c x)
              (s\<lparr>mach := m1, trace := trace s @ [Resume i c x FOX32_ERR_OK]\<rparr>) = Some y"
            by simp
          from 1(1) [OF this] hi
          have "P (sub_executed c x)
              (s\<lparr>mach := m1, trace := trace s @ [Resume i c x FOX32_ERR_OK]\<rparr>) (fst y) (snd y)"
            by simp
          then show ?thesis using ok [OF True] r ok' by simp
        next
          case bad: False
          obtain r' m3 where rc:
            "fox32_recover h (if debug m1 then puts_strerr h m1 e else m1) e = (r', m3)"
            by (metis surj_pair)
          let ?s3 = "s\<lparr>mach := m3,
            trace := trace s @ Resume i c x e # (if debug m1 then [Puts e] else []) @ [Recover i r']\<rparr>"
          show ?thesis
          proof (cases "r' = FOX32_ERR_OK")
            case False
            with 1(2) True r hi bad rc have "y = (c, ?s3)"
              by (cases "debug m1") (simp_all add: Let_def)
            then show ?thesis using fail [OF True r bad rc False] by simp
          next
            case rok: True
            with 1(2) True r hi bad rc
            have "wc h i (sub_executed c x) ?s3 = Some y"
              by (cases "debug m1") (simp_all add: Let_def)
            from 1(1) [OF this] hi
            have "P (sub_executed c x) ?s3 (fst y) (snd y)" by simp
            then show ?thesis using recovered [OF True r bad] rc rok by simp
          qed
        qed
      qed
    qed
  qed
  from this [OF run] show ?thesis by simp
qed

subsection \<open>The events of a slice and of a tick\<close>

lemma slice_events_in_slice: "slice_events i c evs \<Longrightarrow> list_all (in_slice i) evs"
  by (induction i c evs rule: slice_events.induct) (auto split: if_splits)



lemma slice_events_fault_last:
  assumes "e \<noteq> FOX32_ERR_OK" "r \<noteq> FOX32_ERR_OK" "0 < c"
  shows "slice_events i c (Resume i c x e # (if d then [Puts e] else []) @ [Recover i r])"
  using assms by (cases e; cases r) simp_all

lemma slice_events_recovered:
  assumes "e \<noteq> FOX32_ERR_OK" "0 < c" "slice_events i (sub_executed c x) evs"
  shows "slice_events i c (Resume i c x e # (if d then [Puts e] else []) @ Recover i FOX32_ERR_OK # evs)"
  using assms by (cases e) simp_all

lemma while_cycles_trace:
  assumes "while_cycles h i c s = Some (c', s')"
  shows "\<exists>evs. trace s' = trace s @ evs \<and> slice_events i c evs"
  using assms
proof (induction rule: while_cycles_cases)
  case (exit c s)
  then show ?case by simp
next
  case (ok c s x m1 c' s')
  then obtain evs where "trace s' = trace s @ Resume i c x FOX32_ERR_OK # evs"
    "slice_events i (sub_executed c x) evs" by auto
  then show ?case using ok(1) by simp
next
  case (fail c s e x m1 r m3)
  show ?case
    using slice_events_fault_last [OF fail(3,5,1), of i x "debug m1"] by simp
next
  case (recovered c s e x m1 m3 c' s')
  then obtain evs where evs: "trace s' = trace s @ Resume i c x e #
      (if debug m1 then [Puts e] else []) @ Recover i FOX32_ERR_OK # evs"
    "slice_events i (sub_executed c x) evs" by auto
  show ?case
    using slice_events_recovered [OF recovered(3,1) evs(2), of "debug m1"] evs(1) by simp
qed

lemma while_cycles_frame:
  assumes "while_cycles h i c s = Some (c', s')"
  shows "tick_start s' = tick_start s \<and> tick_end s' = tick_end s \<and> ticks s' = ticks s
       \<and> done_flag s' = done_flag s \<and> last_cycle_count s' = last_cycle_count s"
  using assms by (induction rule: while_cycles_cases) simp_all

lemma while_cycles_headless:
  assumes "while_cycles h i c s = Some (c', s')" "keeps_headless h"
  shows "headless (mach s') = headless (mach s)"
  using assms(1)
proof (induction rule: while_cycles_cases)
  case (exit c s)
  show ?case by simp
next
  case (ok c s x m1 c' s')
  have "headless m1 = headless (mach s)"
    using assms(2) ok(2) unfolding keeps_headless_def by (metis snd_conv)
  then show ?case using ok(3) by simp
next
  case (fail c s e x m1 r m3)
  have 1: "headless m1 = headless (mach s)"
    using assms(2) fail(2) unfolding keeps_headless_def by (metis snd_conv)
  have 2: "headless (if debug m1 then puts_strerr h m1 e else m1) = headless m1"
    using assms(2) unfolding keeps_headless_def by simp
  have "headless m3 = headless (if debug m1 then puts_strerr h m1 e else m1)"
    using assms(2) fail(4) unfolding keeps_headless_def by (metis snd_conv)
  then show ?case using 1 2 by simp
next
  case (recovered c s e x m1 m3 c' s')
  have 1: "headless m1 = headless (mach s)"
    using assms(2) recovered(2) unfolding keeps_headless_def by (metis snd_conv)
  have 2: "headless (if debug m1 then puts_strerr h m1 e else m1) = headless m1"
    using assms(2) unfolding keeps_headless_def by simp
  have "headless m3 = headless (if debug m1 then puts_strerr h m1 e else m1)"
    using assms(2) recovered(4) unfolding keeps_headless_def by (metis snd_conv)
  then show ?case using 1 2 recovered(5) by simp
qed

lemma while_cycles_left:
  assumes "while_cycles h i c s = Some (c', s')"
  shows "c' \<le> 0 \<or> (\<exists>r. r \<noteq> FOX32_ERR_OK \<and> trace s' \<noteq> [] \<and> last (trace s') = Recover i r)"
  using assms by (induction rule: while_cycles_cases) auto

lemma for_slices_cases [consumes 1, case_names stop slice]:
  assumes run: "for_slices h dt cpt ex i s = Some s'"
    and stop: "\<And>i s. \<not> i < dt \<Longrightarrow> P i s s"
    and slice: "\<And>i s c' s1. i < dt \<Longrightarrow>
        while_cycles h i (slice_budget dt cpt ex i) (rtc_update h i s) = Some (c', s1) \<Longrightarrow>
        for_slices h dt cpt ex (i + 1) s1 = Some s' \<Longrightarrow> P (i + 1) s1 s' \<Longrightarrow> P i s s'"
  shows "P i s s'"
proof -
  have "h' = h \<longrightarrow> dt' = dt \<longrightarrow> cpt' = cpt \<longrightarrow> ex' = ex \<longrightarrow>
        for_slices h dt cpt ex i0 s0 = Some s' \<longrightarrow> P i0 s0 s'" for h' dt' cpt' ex' i0 s0
  proof (rule for_slices.induct [where P = "\<lambda>h' dt' cpt' ex' i0 s0.
      h' = h \<longrightarrow> dt' = dt \<longrightarrow> cpt' = cpt \<longrightarrow> ex' = ex \<longrightarrow>
      for_slices h dt cpt ex i0 s0 = Some s' \<longrightarrow> P i0 s0 s'"], goal_cases)
    case (1 h' dt' cpt' ex' i s)
    show ?case
    proof (intro impI)
      assume eqs: "h' = h" "dt' = dt" "cpt' = cpt" "ex' = ex"
        and r: "for_slices h dt cpt ex i s = Some s'"
      show "P i s s'"
      proof (cases "i < dt")
        case False
        with r have "s' = s" by (subst (asm) for_slices.simps) simp
        then show ?thesis using stop [OF False] by simp
      next
        case True
        from r True obtain c' s1 where
          w: "while_cycles h i (slice_budget dt cpt ex i) (rtc_update h i s) = Some (c', s1)"
          and f: "for_slices h dt cpt ex (i + 1) s1 = Some s'"
          by (subst (asm) for_slices.simps) (auto split: option.splits)
        have "P (i + 1) s1 s'"
          using 1 [of "(c', s1)" c' s1] True w f eqs by simp
        then show ?thesis by (rule slice [OF True w f])
      qed
    qed
  qed
  then show ?thesis using run by simp
qed

lemma rtc_update_trace: "trace (rtc_update h i s) = trace s @ [RtcUpdate i]"
  by (simp add: rtc_update_def Let_def split: prod.splits)

lemma rtc_update_frame:
  "tick_start (rtc_update h i s) = tick_start s \<and> tick_end (rtc_update h i s) = tick_end s
   \<and> ticks (rtc_update h i s) = ticks s \<and> done_flag (rtc_update h i s) = done_flag s
   \<and> last_cycle_count (rtc_update h i s) = last_cycle_count s"
  by (simp add: rtc_update_def Let_def split: prod.splits)

lemma rtc_update_headless:
  assumes "keeps_headless h"
  shows "headless (mach (rtc_update h i s)) = headless (mach s)"
proof -
  have 1: "headless (snd (SDL_GetTicks h m)) = headless m" for m
    using assms unfolding keeps_headless_def by simp
  have 2: "headless (snd (time_NULL h m)) = headless m" for m
    using assms unfolding keeps_headless_def by simp
  show ?thesis
  proof (cases "CYCLE_AUTOADJUST h")
    case True
    obtain t m where g: "SDL_GetTicks h (mach s) = (t, m)" by (metis surj_pair)
    obtain t' m' where n: "time_NULL h (m\<lparr>rtc_uptime := t\<rparr>) = (t', m')" by (metis surj_pair)
    have "headless m = headless (mach s)" using 1 [of "mach s"] g by simp
    moreover have "headless m' = headless (m\<lparr>rtc_uptime := t\<rparr>)"
      using 2 [of "m\<lparr>rtc_uptime := t\<rparr>"] n by simp
    ultimately show ?thesis using True g n by (simp add: rtc_update_def)
  next
    case False
    obtain t' m' where n: "time_NULL h ((mach s)\<lparr>rtc_uptime := rtc_uptime (mach s) + 1\<rparr>) = (t', m')"
      by (metis surj_pair)
    have "headless m' = headless ((mach s)\<lparr>rtc_uptime := rtc_uptime (mach s) + 1\<rparr>)"
      using 2 [of "(mach s)\<lparr>rtc_uptime := rtc_uptime (mach s) + 1\<rparr>"] n by simp
    then show ?thesis using False n by (simp add: rtc_update_def)
  qed
qed

lemma for_slices_trace:
  assumes "for_slices h dt cpt ex i s = Some s'"
  shows "\<exists>evs. trace s' = trace s @ evs \<and> tick_events dt (slice_budget dt cpt ex) i evs"
  using assms
proof (induction rule: for_slices_cases)
  case (stop i s)
  then show ?case by (simp add: tick_done)
next
  case (slice i s c' s1)
  from while_cycles_trace [OF slice(2)] obtain evs1 where
    1: "trace s1 = trace s @ RtcUpdate i # evs1" "slice_events i (slice_budget dt cpt ex i) evs1"
    by (auto simp add: rtc_update_trace)
  from slice(4) obtain evs2 where
    2: "trace s' = trace s1 @ evs2" "tick_events dt (slice_budget dt cpt ex) (i + 1) evs2"
    by auto
  have "tick_events dt (slice_budget dt cpt ex) i (RtcUpdate i # evs1 @ evs2)"
    by (rule tick_slice [OF slice(1) 1(2) 2(2)])
  then show ?case using 1(1) 2(1) by simp
qed

lemma for_slices_frame:
  assumes "for_slices h dt cpt ex i s = Some s'"
  shows "tick_start s' = tick_start s \<and> tick_end s' = tick_end s \<and> ticks s' = ticks s
       \<and> done_flag s' = done_flag s \<and> last_cycle_count s' = last_cycle_count s"
  using assms
proof (induction rule: for_slices_cases)
  case (stop i s)
  show ?case by simp
next
  case (slice i s c' s1)
  show ?case
    using while_cycles_frame [OF slice(2)] rtc_update_frame [of h i s] slice(4) by simp
qed

lemma for_slices_headless:
  assumes "for_slices h dt cpt ex i s = Some s'" "keeps_headless h"
  shows "headless (mach s') = headless (mach s)"
  using assms(1)
proof (induction rule: for_slices_cases)
  case (stop i s)
  show ?case by simp
next
  case (slice i s c' s1)
  show ?case
    using while_cycles_headless [OF slice(2) assms(2)] rtc_update_headless [OF assms(2), of i s]
      slice(4) by simp
qed

subsection \<open>What the events of a tick show\<close>

lemma rtc_then_cycles_slice:
  "list_all (in_slice i) evs \<Longrightarrow>
   rtc_then_cycles (Some i) (evs @ rest) = rtc_then_cycles (Some i) rest"
proof (induction evs)
  case Nil
  show ?case by simp
next
  case (Cons ev evs)
  then show ?case by (cases ev) simp_all
qed

lemma tick_events_rtc_then_cycles: "tick_events dt b i evs \<Longrightarrow> rtc_then_cycles cur evs"
proof (induction arbitrary: cur rule: tick_events.induct)
  case (tick_done i)
  show ?case by simp
next
  case (tick_slice i evs1 evs2)
  show ?case
    using rtc_then_cycles_slice [OF slice_events_in_slice [OF tick_slice(2)], of evs2]
      tick_slice(4) [of "Some i"] by simp
qed








lemma fresh_budgets_rtc_rtc:
  "fresh_budgets b (RtcUpdate i # RtcUpdate j # tl0) = fresh_budgets b (RtcUpdate j # tl0)"
  by simp


lemma in_slice_no_draw_raise:
  "list_all (in_slice i) evs \<Longrightarrow> Draw \<notin> set evs \<and> raises evs = []"
proof (induction evs)
  case Nil
  show ?case by (simp add: raises_def)
next
  case (Cons ev evs)
  then show ?case by (cases ev) (simp_all add: raises_def)
qed

lemma raises_append: "raises (xs @ ys) = raises xs @ raises ys"
  by (simp add: raises_def)

lemma tick_events_no_draw_raise: "tick_events dt b i evs \<Longrightarrow> Draw \<notin> set evs \<and> raises evs = []"
proof (induction rule: tick_events.induct)
  case (tick_done i)
  show ?case by (simp add: raises_def)
next
  case (tick_slice i evs1 evs2)
  have "raises [RtcUpdate i] = []" by (simp add: raises_def)
  then show ?case
    using in_slice_no_draw_raise [OF slice_events_in_slice [OF tick_slice(2)]] tick_slice(4)
      raises_append [of "[RtcUpdate i]" "evs1 @ evs2"]
    by (simp add: raises_append)
qed

subsection \<open>One call of \<^verbatim>\<open>main_loop\<close>\<close>

lemma tmod_1: "tmod a 1 = 0"
  by (simp add: tmod_def tdiv_1)

lemma interrupt_dispatch_trace:
  "trace (interrupt_dispatch h s) =
   trace s @ (if headless (mach s) then [] else [Draw]) @ [Raise (VSYNC_INTERRUPT_VECTOR h)]"
  by (simp add: interrupt_dispatch_def TPF_eq tmod_1 Let_def)

lemma interrupt_dispatch_halted: "\<not> halted (mach (interrupt_dispatch h s))"
  by (simp add: interrupt_dispatch_def TPF_eq tmod_1 Let_def)

lemma interrupt_dispatch_frame:
  "tick_start (interrupt_dispatch h s) = tick_start s \<and> tick_end (interrupt_dispatch h s) = tick_end s
   \<and> ticks (interrupt_dispatch h s) = ticks s \<and> done_flag (interrupt_dispatch h s) = done_flag s
   \<and> last_cycle_count (interrupt_dispatch h s) = last_cycle_count s"
  by (simp add: interrupt_dispatch_def TPF_eq tmod_1 Let_def)

lemma interrupt_dispatch_headless:
  assumes "keeps_headless h" "headless (mach s)"
  shows "headless (mach (interrupt_dispatch h s))"
proof -
  have "headless (fox32_raise h m v) = headless m" for m v
    using assms(1) unfolding keeps_headless_def by simp
  then show ?thesis using assms(2)
    by (simp add: interrupt_dispatch_def TPF_eq tmod_1 Let_def)
qed

lemma poll_events_Inr:
  assumes "poll_events h s = Inr s'"
  shows "trace s' = trace s @ [ProcessEvents] \<and> ticks s' = ticks s + 1
       \<and> mach s' = snd (ScreenProcessEvents h (mach s))
       \<and> tick_start s' = tick_start s \<and> last_cycle_count s' = last_cycle_count s"
proof -
  obtain d m where p: "ScreenProcessEvents h (mach s) = (d, m)" by (metis surj_pair)
  show ?thesis
  proof (cases "c_add (ticks s) 1")
    case (Inl e)
    with assms p show ?thesis by (simp add: poll_events_def c_bind_Inl)
  next
    case (Inr t)
    then have "t = ticks s + 1" by (simp add: c_add_def c_int_def split: if_splits)
    with assms p Inr show ?thesis by (auto simp add: poll_events_def c_bind_Inr)
  qed
qed

lemma begin_tick_trace:
  assumes "begin_tick h s = (dt, s1)"
  shows "trace s1 = trace s @ (if EMSCRIPTEN h \<and> (done_flag s \<or> bus_requests_exit h (mach s))
                               then [CancelMainLoop] else [])
       \<and> last_cycle_count s1 = last_cycle_count s \<and> ticks s1 = ticks s
       \<and> done_flag s1 = done_flag s"
  using assms by (auto simp add: begin_tick_def Let_def split: prod.splits if_splits)

lemma begin_tick_headless:
  assumes "begin_tick h s = (dt, s1)" "keeps_headless h"
  shows "headless (mach s1) = headless (mach s)"
proof -
  have 1: "headless (snd (SDL_GetTicks h m)) = headless m" for m
    using assms(2) unfolding keeps_headless_def by simp
  have 2: "headless (emscripten_cancel_main_loop h m) = headless m" for m
    using assms(2) unfolding keeps_headless_def by simp
  let ?s0 = "if EMSCRIPTEN h \<and> (done_flag s \<or> bus_requests_exit h (mach s))
             then s\<lparr>mach := emscripten_cancel_main_loop h (mach s),
                    trace := trace s @ [CancelMainLoop]\<rparr> else s"
  have 0: "headless (mach ?s0) = headless (mach s)" using 2 by simp
  obtain n1 m1 where g1: "SDL_GetTicks h (mach ?s0) = (n1, m1)" by (metis surj_pair)
  obtain n2 m2 where g2: "SDL_GetTicks h m1 = (n2, m2)" by (metis surj_pair)
  have "headless m1 = headless (mach ?s0)" using 1 [of "mach ?s0"] g1 by simp
  moreover have "headless m2 = headless m1" using 1 [of m1] g2 by simp
  moreover have "mach s1 = m2" using assms(1) g1 g2 by (auto simp add: begin_tick_def Let_def)
  ultimately show ?thesis using 0 by simp
qed

lemma main_loop_split:
  assumes "main_loop h s = Some (Inr s')"
  shows "\<exists>dt s1 cpt ex l' s2. begin_tick h s = (dt, s1)
       \<and> next_budget (CYCLE_AUTOADJUST h) (FOX32_CPU_HZ h) (last_cycle_count s) dt = Inr (cpt, ex, l')
       \<and> for_slices h (clamp_dt dt) cpt ex 0 (s1\<lparr>last_cycle_count := l'\<rparr>) = Some s2
       \<and> poll_events h (interrupt_dispatch h s2) = Inr s'"
proof -
  obtain dt s1 where b: "begin_tick h s = (dt, s1)" by (metis surj_pair)
  have l: "last_cycle_count s1 = last_cycle_count s" using begin_tick_trace [OF b] by simp
  show ?thesis
  proof (cases "next_budget (CYCLE_AUTOADJUST h) (FOX32_CPU_HZ h) (last_cycle_count s) dt")
    case (Inl e)
    with assms b l show ?thesis by (simp add: main_loop_def)
  next
    case (Inr r)
    obtain cpt ex l' where r: "r = (cpt, ex, l')" by (cases r)
    show ?thesis
    proof (cases "for_slices h (clamp_dt dt) cpt ex 0 (s1\<lparr>last_cycle_count := l'\<rparr>)")
      case None
      with assms b l Inr r show ?thesis by (simp add: main_loop_def)
    next
      case (Some s2)
      with assms b l Inr r have "poll_events h (interrupt_dispatch h s2) = Inr s'"
        by (simp add: main_loop_def)
      with b Inr r Some show ?thesis by simp
    qed
  qed
qed

lemma main_loop_trace:
  assumes "main_loop h s = Some (Inr s')"
  shows "\<exists>dt s1 cpt ex l' evs hl. begin_tick h s = (dt, s1)
       \<and> next_budget (CYCLE_AUTOADJUST h) (FOX32_CPU_HZ h) (last_cycle_count s) dt = Inr (cpt, ex, l')
       \<and> tick_events (clamp_dt dt) (slice_budget (clamp_dt dt) cpt ex) 0 evs
       \<and> (keeps_headless h \<longrightarrow> hl = headless (mach s))
       \<and> events_since s s' =
           (if EMSCRIPTEN h \<and> (done_flag s \<or> bus_requests_exit h (mach s))
            then [CancelMainLoop] else [])
           @ evs @ (if hl then [] else [Draw])
           @ [Raise (VSYNC_INTERRUPT_VECTOR h), ProcessEvents]"
proof -
  from main_loop_split [OF assms] obtain dt s1 cpt ex l' s2 where
    b: "begin_tick h s = (dt, s1)"
    and n: "next_budget (CYCLE_AUTOADJUST h) (FOX32_CPU_HZ h) (last_cycle_count s) dt = Inr (cpt, ex, l')"
    and f: "for_slices h (clamp_dt dt) cpt ex 0 (s1\<lparr>last_cycle_count := l'\<rparr>) = Some s2"
    and p: "poll_events h (interrupt_dispatch h s2) = Inr s'"
    by blast
  from for_slices_trace [OF f] obtain evs where
    e: "trace s2 = trace s1 @ evs"
      "tick_events (clamp_dt dt) (slice_budget (clamp_dt dt) cpt ex) 0 evs" by auto
  have hl: "keeps_headless h \<longrightarrow> headless (mach s2) = headless (mach s)"
    using for_slices_headless [OF f] begin_tick_headless [OF b] by simp
  have "trace s' = trace s @ (if EMSCRIPTEN h \<and> (done_flag s \<or> bus_requests_exit h (mach s))
            then [CancelMainLoop] else [])
           @ evs @ (if headless (mach s2) then [] else [Draw])
           @ [Raise (VSYNC_INTERRUPT_VECTOR h), ProcessEvents]"
    using poll_events_Inr [OF p] interrupt_dispatch_trace [of h s2] e(1) begin_tick_trace [OF b]
    by simp
  then have "events_since s s' =
           (if EMSCRIPTEN h \<and> (done_flag s \<or> bus_requests_exit h (mach s))
            then [CancelMainLoop] else [])
           @ evs @ (if headless (mach s2) then [] else [Draw])
           @ [Raise (VSYNC_INTERRUPT_VECTOR h), ProcessEvents]"
    by (simp add: events_since_def)
  with b n e(2) hl show ?thesis by blast
qed

subsection \<open>A tick with the engine that faults\<close>

lemma test_host_simps:
  "EMSCRIPTEN (test_host ems engine rec) = ems"
  "FOX32_CPU_HZ (test_host ems engine rec) = 64000000"
  "VSYNC_INTERRUPT_VECTOR (test_host ems engine rec) = 255"
  "SDL_GetTicks (test_host ems engine rec) m = (of_nat (world m), m)"
  "time_NULL (test_host ems engine rec) m = (int (world m) div 1000, m)"
  "fox32_resume (test_host ems engine rec) m n = (engine n, m)"
  "puts_strerr (test_host ems engine rec) m e = m"
  "fox32_recover (test_host ems engine rec) m e = (rec e, m)"
  "fox32_raise (test_host ems engine rec) m v = m"
  "ScreenDraw (test_host ems engine rec) m = m"
  "ScreenProcessEvents (test_host ems engine rec) m = (False, m)"
  "bus_requests_exit (test_host ems engine rec) m = False"
  by (simp_all add: test_host_def)

lemma test_host_simps2:
  "WINDOWS (test_host ems engine rec) = False"
  "SDL_Init (test_host ems engine rec) m = (True, m)"
  "screen_setup (test_host ems engine rec) m = m"
  "serial_init (test_host ems engine rec) m = m"
  "SDL_Delay (test_host ems engine rec) m d = m"
  "emscripten_cancel_main_loop (test_host ems engine rec) m = m"
  by (simp_all add: test_host_def)

lemma while_cycles_faulting:
  assumes "0 < c"
  shows "while_cycles (test_host ems faulting_engine id) i c s =
         Some (c, s\<lparr>trace := trace s @ [Resume i c 0 (FOX32_ERR_OTHER 1)] @
                  (if debug (mach s) then [Puts (FOX32_ERR_OTHER 1)] else []) @
                  [Recover i (FOX32_ERR_OTHER 1)]\<rparr>)"
  using while_cycles_fault [where h = "test_host ems faulting_engine id" and s = s and c = c
      and e = "FOX32_ERR_OTHER 1" and x = 0 and ?m1.0 = "mach s" and r = "FOX32_ERR_OTHER 1"
      and ?m3.0 = "mach s" and i = i] assms
  by (simp add: test_host_simps faulting_engine_def)

lemma rtc_update_test_host:
  "rtc_update (test_host False engine rec) i s =
   s\<lparr>mach := (mach s)\<lparr>rtc_uptime := rtc_uptime (mach s) + 1,
                         rtc_time := int (world (mach s)) div 1000\<rparr>,
      trace := trace s @ [RtcUpdate i]\<rparr>"
  by (simp add: rtc_update_def CYCLE_AUTOADJUST_def test_host_simps)

lemma begin_tick_test_host:
  "begin_tick (test_host False engine rec) s =
   (elapsed_ms (of_nat (world (mach s))) (tick_start s),
    s\<lparr>tick_start := of_nat (world (mach s))\<rparr>)"
  by (simp add: begin_tick_def test_host_simps)

lemma for_slices_stop: "\<not> i < dt \<Longrightarrow> for_slices h dt cpt ex i s = Some s"
  by (subst for_slices.simps) simp

lemma for_slices_faulting:
  assumes "i < dt" "0 < slice_budget dt cpt ex i" "\<not> debug (mach s)"
  shows "for_slices (test_host False faulting_engine id) dt cpt ex i s =
         for_slices (test_host False faulting_engine id) dt cpt ex (i + 1)
           (s\<lparr>mach := (mach s)\<lparr>rtc_uptime := rtc_uptime (mach s) + 1,
                                 rtc_time := int (world (mach s)) div 1000\<rparr>,
              trace := trace s @ [RtcUpdate i,
                Resume i (slice_budget dt cpt ex i) 0 (FOX32_ERR_OTHER 1),
                Recover i (FOX32_ERR_OTHER 1)]\<rparr>)"
  by (subst for_slices.simps)
     (simp add: assms rtc_update_test_host while_cycles_faulting [OF assms(2)])

lemma faulting_slices:
  assumes "\<not> debug (mach s)"
  shows "for_slices (test_host False faulting_engine id) 2 533333 0 0 s =
   Some (s\<lparr>mach := (mach s)\<lparr>rtc_uptime := rtc_uptime (mach s) + 2,
                            rtc_time := int (world (mach s)) div 1000\<rparr>,
      trace := trace s @
               [RtcUpdate 0, Resume 0 533333 0 (FOX32_ERR_OTHER 1), Recover 0 (FOX32_ERR_OTHER 1),
                RtcUpdate 1, Resume 1 533333 0 (FOX32_ERR_OTHER 1), Recover 1 (FOX32_ERR_OTHER 1)]\<rparr>)"
  using assms by (simp add: for_slices_faulting for_slices_stop slice_budget_def)

lemma elapsed_ms_2: "elapsed_ms 2 0 = 2"
  by (simp add: elapsed_ms_def)

lemma next_budget_2: "next_budget False 64000000 l 2 = Inr (533333, 0, l)"
  using next_budget_fixed [of 64000000 2 l] by (simp add: INT_MAX_def clamp_dt_def)

lemma faulting_tick:
  "main_loop (test_host False faulting_engine id) (init_globals 2 False ht) =
   Some (Inr ((init_globals 2 False ht)
     \<lparr>mach := (mach (init_globals 2 False ht))\<lparr>halted := False, rtc_uptime := 2\<rparr>,
      tick_start := 2, ticks := 1, trace := faulting_tick_events\<rparr>))"
proof -
  let ?h = "test_host False faulting_engine id"
  let ?s1 = "(init_globals 2 False ht)\<lparr>tick_start := 2, last_cycle_count := 1\<rparr>"
  have b: "begin_tick ?h (init_globals 2 False ht) = (2, (init_globals 2 False ht)\<lparr>tick_start := 2\<rparr>)"
    by (simp add: begin_tick_test_host init_globals_def elapsed_ms_2)
  have f: "for_slices ?h 2 533333 0 0 ?s1 =
      Some (?s1\<lparr>mach := (mach ?s1)\<lparr>rtc_uptime := rtc_uptime (mach ?s1) + 2,
                            rtc_time := int (world (mach ?s1)) div 1000\<rparr>,
        trace := trace ?s1 @
               [RtcUpdate 0, Resume 0 533333 0 (FOX32_ERR_OTHER 1), Recover 0 (FOX32_ERR_OTHER 1),
                RtcUpdate 1, Resume 1 533333 0 (FOX32_ERR_OTHER 1), Recover 1 (FOX32_ERR_OTHER 1)]\<rparr>)"
    by (rule faulting_slices) (simp add: init_globals_def)
  show ?thesis
    apply (simp only: main_loop_def b prod.case CYCLE_AUTOADJUST_def test_host_simps)
    apply (simp add: init_globals_def next_budget_2 clamp_dt_def)
    apply (simp only: f [unfolded init_globals_def, simplified])
    apply (simp add: interrupt_dispatch_def poll_events_def TPF_eq tmod_1 test_host_simps
        c_add_def c_int_def c_bind_Inr INT_MIN_def INT_MAX_def faulting_tick_events_def)
    done
qed

lemma faulting_tick_after:
  "main_loop (test_host False faulting_engine id) (init_globals 2 False ht) =
   Some (Inr (after_faulting_tick ht))"
  by (simp only: faulting_tick after_faulting_tick_def)

lemma events_since_after_faulting_tick:
  "events_since (init_globals 2 False ht) (after_faulting_tick ht) = faulting_tick_events"
  by (simp add: events_since_def after_faulting_tick_def init_globals_def)

section \<open>The claims about a tick\<close>

lemma tick_events_then_rtc_then_cycles:
  "tick_events dt b i evs \<Longrightarrow> (\<And>cur. rtc_then_cycles cur post) \<Longrightarrow>
   rtc_then_cycles cur (evs @ post)"
proof (induction arbitrary: cur rule: tick_events.induct)
  case (tick_done i)
  then show ?case by simp
next
  case (tick_slice i evs1 evs2)
  show ?case
    using rtc_then_cycles_slice [OF slice_events_in_slice [OF tick_slice(2)], of "evs2 @ post"]
      tick_slice(4) [of "Some i"] tick_slice(5) by simp
qed

text \<open>
  C8, as the code has it. Within one call of \<^verbatim>\<open>main_loop\<close>, for every millisecond slice
  the clock (\<^verbatim>\<open>rtc_uptime\<close> and \<^verbatim>\<open>rtc_time\<close>) is advanced first and the cycles of the slice
  are executed after that: every call of the engine for a slice comes after the clock
  update of that slice and before the clock update of the next one.
\<close>

theorem clock_is_advanced_before_cycles:
  assumes "main_loop h s = Some (Inr s')"
  shows "rtc_then_cycles None (events_since s s')"
proof -
  from main_loop_trace [OF assms] obtain dt cpt ex evs hl where
    t: "tick_events (clamp_dt dt) (slice_budget (clamp_dt dt) cpt ex) 0 evs"
    and e: "events_since s s' =
           (if EMSCRIPTEN h \<and> (done_flag s \<or> bus_requests_exit h (mach s))
            then [CancelMainLoop] else [])
           @ evs @ (if hl then [] else [Draw])
           @ [Raise (VSYNC_INTERRUPT_VECTOR h), ProcessEvents]"
    by blast
  have "rtc_then_cycles cur
      (evs @ (if hl then [] else [Draw]) @ [Raise (VSYNC_INTERRUPT_VECTOR h), ProcessEvents])"
    for cur
    by (rule tick_events_then_rtc_then_cycles [OF t]) simp
  then show ?thesis by (simp add: e)
qed

theorem clock_is_advanced_before_cycles_witness:
  "main_loop (test_host False faulting_engine id) (init_globals 2 False False) =
     Some (Inr (after_faulting_tick False))
   \<and> rtc_then_cycles None (events_since (init_globals 2 False False) (after_faulting_tick False))"
  using clock_is_advanced_before_cycles [OF faulting_tick_after [of False]]
  by (simp add: faulting_tick_after)

text \<open>
  C8 as stated fails: in the call after 2 ms with the faulting engine, the clock update of
  slice 0 is the first event and the call of \<^verbatim>\<open>fox32_resume\<close> for slice 0 comes after it.
\<close>

theorem cycles_do_not_precede_clock:
  "main_loop (test_host False faulting_engine id) (init_globals 2 False False) =
     Some (Inr (after_faulting_tick False))
   \<and> \<not> cycles_then_rtc [] (events_since (init_globals 2 False False) (after_faulting_tick False))"
  by (simp add: faulting_tick_after events_since_after_faulting_tick faulting_tick_events_def)





section \<open>Termination of the inner loop\<close>

lemma sub_executed_eq:
  assumes "- (2 ^ 31) \<le> c - uint x" "c - uint x < 2 ^ 31"
  shows "sub_executed c x = c - uint x"
proof -
  have "(word_of_int c :: 32 word) - x = word_of_int (c - uint x)"
    by simp
  then have "sub_executed c x = signed_take_bit 31 (c - uint x)"
    by (simp only: sub_executed_def sint_sbintrunc') simp
  then show ?thesis using assms by (simp add: signed_take_bit_int_eq_self)
qed

lemma sub_executed_progress:
  assumes "0 < c" "c \<le> INT_MAX" "1 \<le> unat x" "unat x \<le> 2 ^ 31"
  shows "sub_executed c x < c \<and> sub_executed c x \<le> INT_MAX"
proof -
  have u: "uint x = int (unat x)" by simp
  have 1: "1 \<le> uint x" using assms(3) u by linarith
  have 2: "uint x \<le> 2 ^ 31" using assms(4) u by (metis of_nat_le_iff of_nat_numeral of_nat_power)
  have "sub_executed c x = c - uint x"
    by (rule sub_executed_eq) (use assms(1,2) 1 2 in \<open>simp_all add: INT_MAX_def\<close>)
  then show ?thesis using 1 assms(2) by simp
qed

lemma while_cycles_terminates:
  assumes "makes_progress h" "c \<le> INT_MAX"
  shows "\<exists>r. while_cycles h i c s = Some r"
  using assms(2)
proof (induction "nat c" arbitrary: c s rule: less_induct)
  case less
  show ?case
  proof (cases "0 < c")
    case False
    then show ?thesis by (simp add: while_cycles_exit)
  next
    case True
    obtain e x m1 where r: "fox32_resume h (mach s) c = ((e, x), m1)" by (metis surj_pair)
    obtain r' m3 where rc:
      "fox32_recover h (if debug m1 then puts_strerr h m1 e else m1) e = (r', m3)"
      by (metis surj_pair)
    from assms(1) [unfolded makes_progress_def, rule_format, OF conjI [OF True less.prems], of "mach s"]
    have "case fox32_resume h (mach s) c of ((e, x), m1) \<Rightarrow>
           (1 \<le> unat x \<and> unat x \<le> 2 ^ 31)
           \<or> (e \<noteq> FOX32_ERR_OK
               \<and> fst (fox32_recover h (if debug m1 then puts_strerr h m1 e else m1) e)
                   \<noteq> FOX32_ERR_OK)"
      .
    then have p: "(1 \<le> unat x \<and> unat x \<le> 2 ^ 31) \<or> (e \<noteq> FOX32_ERR_OK \<and> r' \<noteq> FOX32_ERR_OK)"
      by (simp add: r rc)
    have step: "\<exists>r. while_cycles h i (sub_executed c x) s1 = Some r"
      if "1 \<le> unat x" "unat x \<le> 2 ^ 31" for s1
    proof -
      from sub_executed_progress [OF True less.prems that]
      have "sub_executed c x < c" "sub_executed c x \<le> INT_MAX" by simp_all
      then show ?thesis using less.hyps [of "sub_executed c x" s1] True by simp
    qed
    show ?thesis
    proof (cases "e = FOX32_ERR_OK")
      case True
      with p have "1 \<le> unat x" "unat x \<le> 2 ^ 31" by simp_all
      from step [OF this] show ?thesis
        using while_cycles_ok [OF \<open>0 < c\<close>, of h s x m1 i] r True by simp
    next
      case False
      show ?thesis
      proof (cases "r' = FOX32_ERR_OK")
        case True
        with p have "1 \<le> unat x" "unat x \<le> 2 ^ 31" by simp_all
        from step [OF this] show ?thesis
          using while_cycles_fault [OF \<open>0 < c\<close> r False rc, of i] True by simp
      next
        case False
        then show ?thesis
          using while_cycles_fault [OF \<open>0 < c\<close> r \<open>e \<noteq> FOX32_ERR_OK\<close> rc, of i] by simp
      qed
    qed
  qed
qed

lemma sub_executed_0:
  assumes "0 < c" "c \<le> INT_MAX"
  shows "sub_executed c 0 = c"
  using sub_executed_eq [of c 0] assms by (simp add: INT_MAX_def)

lemma while_cycles_idle:
  assumes "0 < c" "c \<le> INT_MAX"
  shows "while_cycles (test_host ems idle_engine rec) i c s = None"
proof (rule ccontr)
  assume "while_cycles (test_host ems idle_engine rec) i c s \<noteq> None"
  then obtain c' s' where "while_cycles (test_host ems idle_engine rec) i c s = Some (c', s')"
    by auto
  then have "\<not> (0 < c \<and> c \<le> INT_MAX)"
  proof (induction rule: while_cycles_cases)
    case (exit c s)
    then show ?case by simp
  next
    case (ok c s x m1 c' s')
    from ok(2) have "x = 0" by (simp add: test_host_simps idle_engine_def)
    with ok(3) show ?case using sub_executed_0 [of c] by auto
  next
    case (fail c s e x m1 r m3)
    then show ?case by (simp add: test_host_simps idle_engine_def)
  next
    case (recovered c s e x m1 m3 c' s')
    then show ?case by (simp add: test_host_simps idle_engine_def)
  qed
  with assms show False by simp
qed

lemma sub_executed_over:
  "sub_executed 5 4294967295 = 6" "sub_executed 6 1 = 5"
  by (simp_all add: sub_executed_def)

lemma while_cycles_overreporting:
  assumes "c = 5 \<or> c = 6"
  shows "while_cycles (test_host ems overreporting_engine rec) i c s = None"
proof (rule ccontr)
  assume "while_cycles (test_host ems overreporting_engine rec) i c s \<noteq> None"
  then obtain c' s' where
    "while_cycles (test_host ems overreporting_engine rec) i c s = Some (c', s')"
    by auto
  then have "\<not> (c = 5 \<or> c = 6)"
  proof (induction rule: while_cycles_cases)
    case (exit c s)
    then show ?case by simp
  next
    case (ok c s x m1 c' s')
    from ok(2) have "x = (if c = 5 then 4294967295 else 1)"
      by (simp add: test_host_simps overreporting_engine_def)
    with ok(3) show ?case using sub_executed_over by auto
  next
    case (fail c s e x m1 r m3)
    then show ?case by (simp add: test_host_simps overreporting_engine_def)
  next
    case (recovered c s e x m1 m3 c' s')
    then show ?case by (simp add: test_host_simps overreporting_engine_def)
  qed
  with assms show False by simp
qed

lemma unat_word_of_int_32:
  assumes "0 \<le> n" "n \<le> INT_MAX"
  shows "unat (word_of_int n :: 32 word) = nat n"
proof -
  have "take_bit 32 n = n"
    by (rule take_bit_int_eq_self) (use assms in \<open>simp_all add: INT_MAX_def\<close>)
  then show ?thesis by (simp add: unat_eq_nat_uint uint_word_of_int_eq)
qed

lemma makes_progress_steady: "makes_progress (test_host ems steady_engine rec)"
  unfolding makes_progress_def
proof (intro allI impI)
  fix m :: "nat machine" and n :: int
  assume n: "0 < n \<and> n \<le> INT_MAX"
  then have "unat (word_of_int n :: 32 word) = nat n" by (simp add: unat_word_of_int_32)
  then show "case fox32_resume (test_host ems steady_engine rec) m n of
      ((e, x), m1) \<Rightarrow> (1 \<le> unat x \<and> unat x \<le> 2 ^ 31)
        \<or> (e \<noteq> FOX32_ERR_OK
            \<and> fst (fox32_recover (test_host ems steady_engine rec)
                 (if debug m1 then puts_strerr (test_host ems steady_engine rec) m1 e else m1) e)
               \<noteq> FOX32_ERR_OK)"
    using n by (simp add: test_host_simps steady_engine_def INT_MAX_def) linarith
qed

lemma overreporting_engine_reports:
  "fst (overreporting_engine n) = FOX32_ERR_OK \<and> 1 \<le> unat (snd (overreporting_engine n))"
  by (simp add: overreporting_engine_def)

text \<open>
  An engine that reports more cycles than it was asked for can keep the inner loop from
  ending although every call reports at least one executed cycle: \<^verbatim>\<open>cycles_left -= executed\<close>
  wraps on \<^verbatim>\<open>unsigned\<close>. The engine that reports 4294967295 executed cycles when asked for
  5 and 1 executed cycle otherwise takes \<^verbatim>\<open>cycles_left\<close> from 5 to 6 and back to 5.
\<close>

lemma overreporting_keeps_the_loop_running:
  "overreporting_engine 5 = (FOX32_ERR_OK, 4294967295)
   \<and> overreporting_engine 6 = (FOX32_ERR_OK, 1)
   \<and> sub_executed 5 4294967295 = 6 \<and> sub_executed 6 1 = 5
   \<and> while_cycles (test_host False overreporting_engine id) 0 5 (init_globals 0 False False) = None"
  using while_cycles_overreporting [of 5 False id 0 "init_globals 0 False False"]
  by (simp add: overreporting_engine_def sub_executed_over)

section \<open>Headless runs\<close>

lemma main_loop_extends:
  assumes "main_loop h s = Some (Inr s')"
  shows "trace s' = trace s @ events_since s s'"
proof -
  from main_loop_split [OF assms] obtain dt s1 cpt ex l' s2 where
    b: "begin_tick h s = (dt, s1)"
    and f: "for_slices h (clamp_dt dt) cpt ex 0 (s1\<lparr>last_cycle_count := l'\<rparr>) = Some s2"
    and p: "poll_events h (interrupt_dispatch h s2) = Inr s'"
    by blast
  from for_slices_trace [OF f] obtain evs where e: "trace s2 = trace s1 @ evs" by auto
  have "\<exists>evs'. trace s' = trace s @ evs'"
    using poll_events_Inr [OF p] interrupt_dispatch_trace [of h s2] e begin_tick_trace [OF b]
    by simp
  then show ?thesis by (auto simp add: events_since_def)
qed

lemma main_loop_headless:
  assumes "main_loop h s = Some (Inr s')" "keeps_headless h" "headless (mach s)"
  shows "headless (mach s') \<and> Draw \<notin> set (events_since s s')"
proof -
  from main_loop_split [OF assms(1)] obtain dt s1 cpt ex l' s2 where
    b: "begin_tick h s = (dt, s1)"
    and f: "for_slices h (clamp_dt dt) cpt ex 0 (s1\<lparr>last_cycle_count := l'\<rparr>) = Some s2"
    and p: "poll_events h (interrupt_dispatch h s2) = Inr s'"
    by blast
  have "headless (mach s2)"
    using for_slices_headless [OF f assms(2)] begin_tick_headless [OF b assms(2)] assms(3) by simp
  then have "headless (mach (interrupt_dispatch h s2))"
    by (rule interrupt_dispatch_headless [OF assms(2)])
  moreover have "headless (snd (ScreenProcessEvents h m)) = headless m" for m
    using assms(2) unfolding keeps_headless_def by simp
  ultimately have 1: "headless (mach s')" using poll_events_Inr [OF p] by simp
  from main_loop_trace [OF assms(1)] obtain dt' cpt' ex' evs hl where
    t: "tick_events (clamp_dt dt') (slice_budget (clamp_dt dt') cpt' ex') 0 evs"
    and hl: "keeps_headless h \<longrightarrow> hl = headless (mach s)"
    and e: "events_since s s' =
           (if EMSCRIPTEN h \<and> (done_flag s \<or> bus_requests_exit h (mach s))
            then [CancelMainLoop] else [])
           @ evs @ (if hl then [] else [Draw])
           @ [Raise (VSYNC_INTERRUPT_VECTOR h), ProcessEvents]"
    by blast
  have "hl" using hl assms(2,3) by simp
  then have "Draw \<notin> set (events_since s s')"
    using tick_events_no_draw_raise [OF t] by (simp add: e)
  with 1 show ?thesis by simp
qed

lemma pace_props:
  assumes "keeps_headless h"
  shows "headless (mach (pace h s)) = headless (mach s)
       \<and> (\<exists>evs. trace (pace h s) = trace s @ evs \<and> Draw \<notin> set evs)"
proof -
  obtain t m where g: "SDL_GetTicks h (mach s) = (t, m)" by (metis surj_pair)
  have 1: "headless m = headless (mach s)"
    using assms g unfolding keeps_headless_def by (metis snd_conv)
  have 2: "headless (SDL_Delay h m d) = headless m" for d
    using assms unfolding keeps_headless_def by simp
  show ?thesis using g 1 2 by (simp add: pace_def Let_def)
qed

lemma ticks_upto_headless:
  assumes "keeps_headless h"
  shows "ticks_upto h n s = Some r \<Longrightarrow> globals_of r = Some s' \<Longrightarrow> headless (mach s) \<Longrightarrow>
         \<exists>evs. trace s' = trace s @ evs \<and> Draw \<notin> set evs"
proof (induction n arbitrary: s)
  case 0
  then show ?case by auto
next
  case (Suc n)
  show ?case
  proof (cases "main_loop h s")
    case None
    with Suc.prems(1) have "r = Returned 0 s" by (simp split: if_splits)
    with Suc.prems(2) have "s' = s" by simp
    then show ?thesis by simp
  next
    case (Some res)
    show ?thesis
    proof (cases res)
      case (Inl e)
      with Some Suc.prems(1) have "r = Returned 0 s \<or> r = Undefined e"
        by (simp split: if_splits)
      with Suc.prems(2) have "s' = s" by auto
      then show ?thesis by simp
    next
      case (Inr s1)
      with Some have m: "main_loop h s = Some (Inr s1)" by simp
      from main_loop_headless [OF m assms Suc.prems(3)] main_loop_extends [OF m]
      have s1: "headless (mach s1)" "trace s1 = trace s @ events_since s s1"
        "Draw \<notin> set (events_since s s1)" by simp_all
      from pace_props [OF assms, of s1] obtain evs where
        p: "headless (mach (pace h s1))" "trace (pace h s1) = trace s1 @ evs" "Draw \<notin> set evs"
        using s1(1) by auto
      have unfold: "ticks_upto h (Suc n) s =
          (if EMSCRIPTEN h
           then (if done_flag s \<or> bus_requests_exit h (mach s) then Some (Cancelled s1)
                 else ticks_upto h n s1)
           else if \<not> done_flag s \<and> \<not> bus_requests_exit h (mach s)
                then ticks_upto h n (pace h s1) else Some (Returned 0 s))"
        by (simp add: m)
      consider (stop) "r = Returned 0 s" "s' = s"
        | (cancel) "r = Cancelled s1" "s' = s1"
        | (ems) "ticks_upto h n s1 = Some r"
        | (pull) "ticks_upto h n (pace h s1) = Some r"
      proof (cases "EMSCRIPTEN h")
        case True
        show ?thesis
        proof (cases "done_flag s \<or> bus_requests_exit h (mach s)")
          case stopped: True
          with True unfold Suc.prems(1) have r: "r = Cancelled s1" by simp
          with Suc.prems(2) have "s' = s1" by simp
          with r show ?thesis by (rule cancel)
        next
          case False
          with True unfold Suc.prems(1) have "ticks_upto h n s1 = Some r" by simp
          then show ?thesis by (rule ems)
        qed
      next
        case False
        show ?thesis
        proof (cases "\<not> done_flag s \<and> \<not> bus_requests_exit h (mach s)")
          case True
          with False unfold Suc.prems(1) have "ticks_upto h n (pace h s1) = Some r" by simp
          then show ?thesis by (rule pull)
        next
          case stopped: False
          with False unfold Suc.prems(1) have r: "r = Returned 0 s" by simp
          with Suc.prems(2) have "s' = s" by simp
          with r show ?thesis by (rule stop)
        qed
      qed
      then show ?thesis
      proof cases
        case stop
        from stop(2) show ?thesis by simp
      next
        case cancel
        then show ?thesis using s1(2,3) by blast
      next
        case ems
        from Suc.IH [OF ems Suc.prems(2) s1(1)] obtain evs' where
          "trace s' = trace s1 @ evs'" "Draw \<notin> set evs'" by auto
        then have "trace s' = trace s @ (events_since s s1 @ evs')"
          "Draw \<notin> set (events_since s s1 @ evs')"
          using s1 by simp_all
        then show ?thesis by blast
      next
        case pull
        from Suc.IH [OF pull Suc.prems(2) p(1)] obtain evs' where
          "trace s' = trace (pace h s1) @ evs'" "Draw \<notin> set evs'" by auto
        then have "trace s' = trace s @ (events_since s s1 @ evs @ evs')"
          "Draw \<notin> set (events_since s s1 @ evs @ evs')"
          using s1 p by simp_all
        then show ?thesis by blast
      qed
    qed
  qed
qed

lemma startup_headless:
  assumes "keeps_headless h" "headless (mach s)"
  shows "\<exists>s1. startup h s = Looping s1 \<and> trace s1 = trace s \<and> headless (mach s1)"
proof -
  let ?m1 = "if \<not> WINDOWS h then serial_init h (mach s) else mach s"
  obtain t1 m2 where g1: "SDL_GetTicks h ?m1 = (t1, m2)" by (metis surj_pair)
  obtain t2 m3 where g2: "SDL_GetTicks h m2 = (t2, m3)" by (metis surj_pair)
  have 0: "headless ?m1 = headless (mach s)"
    using assms(1) unfolding keeps_headless_def by simp
  have 1: "headless m2 = headless ?m1"
    using assms(1) g1 unfolding keeps_headless_def by (metis snd_conv)
  have 2: "headless m3 = headless m2"
    using assms(1) g2 unfolding keeps_headless_def by (metis snd_conv)
  have "startup h s = Looping (s\<lparr>mach := m3, tick_start := t1, tick_end := t2\<rparr>)"
    using assms(2) g1 g2 by (simp add: startup_def Let_def)
  then show ?thesis using 0 1 2 assms(2) by simp
qed

lemma main_upto_headless:
  assumes "keeps_headless h" "headless (mach s)" "main_upto h n s = Some r"
    "globals_of r = Some s'"
  shows "Draw \<notin> set (events_since s s')"
proof -
  from startup_headless [OF assms(1,2)] obtain s1 where
    s1: "startup h s = Looping s1" "trace s1 = trace s" "headless (mach s1)" by auto
  from assms(3) s1(1) have "ticks_upto h n s1 = Some r" by (simp add: main_upto_def)
  from ticks_upto_headless [OF assms(1) this assms(4) s1(3)] obtain evs where
    "trace s' = trace s1 @ evs" "Draw \<notin> set evs" by auto
  then show ?thesis using s1(2) by (simp add: events_since_def)
qed

lemma keeps_headless_test_host: "keeps_headless (test_host ems engine rec)"
  by (simp add: keeps_headless_def test_host_simps test_host_simps2)

lemma next_budget_0: "next_budget False 64000000 l 0 = Inr (1066666, 0, l)"
  using next_budget_fixed [of 64000000 0 l] by (simp add: INT_MAX_def clamp_dt_def)

lemma headless_tick:
  "main_loop (test_host False faulting_engine id) (init_globals 0 True False) =
   Some (Inr ((init_globals 0 True False)
     \<lparr>mach := (mach (init_globals 0 True False))\<lparr>rtc_uptime := 1\<rparr>,
      ticks := 1,
      trace := [RtcUpdate 0, Resume 0 1066666 0 (FOX32_ERR_OTHER 1),
                Recover 0 (FOX32_ERR_OTHER 1), Raise 255, ProcessEvents]\<rparr>))"
proof -
  let ?h = "test_host False faulting_engine id"
  let ?s0 = "init_globals 0 True False"
  have b: "begin_tick ?h ?s0 = (0, ?s0)"
    by (simp add: begin_tick_test_host init_globals_def elapsed_ms_def)
  have f: "for_slices ?h 1 1066666 0 0 ?s0 =
      Some (?s0\<lparr>mach := (mach ?s0)\<lparr>rtc_uptime := 1\<rparr>,
        trace := [RtcUpdate 0, Resume 0 1066666 0 (FOX32_ERR_OTHER 1),
                  Recover 0 (FOX32_ERR_OTHER 1)]\<rparr>)"
    by (simp add: for_slices_faulting for_slices_stop slice_budget_def init_globals_def)
  show ?thesis
    apply (simp only: main_loop_def b prod.case CYCLE_AUTOADJUST_def test_host_simps)
    apply (simp add: init_globals_def next_budget_0 clamp_dt_def)
    apply (simp only: f [unfolded init_globals_def, simplified])
    apply (simp add: interrupt_dispatch_def poll_events_def TPF_eq tmod_1 test_host_simps
        c_add_def c_int_def c_bind_Inr INT_MIN_def INT_MAX_def)
    done
qed

lemma headless_run:
  "main_upto (test_host False faulting_engine id) 1 (init_globals 0 True False) =
   Some (Looping after_headless_tick)"
proof -
  let ?h = "test_host False faulting_engine id"
  let ?s0 = "init_globals 0 True False"
  have s: "startup ?h ?s0 = Looping ?s0"
    by (simp add: startup_def test_host_simps test_host_simps2 init_globals_def)
  have d: "tdiv 1000 TPS = 16" by (simp add: TPS_eq tdiv_def)
  have p: "pace ?h ((init_globals 0 True False)
     \<lparr>mach := (mach (init_globals 0 True False))\<lparr>rtc_uptime := 1\<rparr>,
      ticks := 1,
      trace := [RtcUpdate 0, Resume 0 1066666 0 (FOX32_ERR_OTHER 1),
                Recover 0 (FOX32_ERR_OTHER 1), Raise 255, ProcessEvents]\<rparr>) = after_headless_tick"
    by (simp add: pace_def test_host_simps test_host_simps2 d init_globals_def
        after_headless_tick_def)
  have df: "\<not> done_flag ?s0" by (simp add: init_globals_def)
  have "ticks_upto ?h (Suc 0) ?s0 = Some (Looping after_headless_tick)"
    using df
    by (simp only: ticks_upto.simps test_host_simps headless_tick simp_thms if_True if_False
        option.case sum.case p)
  then show ?thesis by (simp add: main_upto_def s)
qed

text \<open>
  C7. When \<^verbatim>\<open>vm.headless\<close> is set after the options are read, and the functions of the
  other files leave it as it is, \<^verbatim>\<open>ScreenDraw\<close> is never called: not at startup and not in
  any call of \<^verbatim>\<open>main_loop\<close>, however many calls the run has made.
\<close>

theorem headless_never_draws:
  assumes "keeps_headless h" "headless (mach s)" "main_upto h n s = Some r"
    "globals_of r = Some s'"
  shows "Draw \<notin> set (events_since s s')"
  by (rule main_upto_headless [OF assms])

theorem headless_never_draws_witness:
  "keeps_headless (test_host False faulting_engine id)
   \<and> headless (mach (init_globals 0 True False))
   \<and> main_upto (test_host False faulting_engine id) 1 (init_globals 0 True False) =
       Some (Looping after_headless_tick)
   \<and> globals_of (Looping after_headless_tick) = Some after_headless_tick
   \<and> events_since (init_globals 0 True False) after_headless_tick \<noteq> []
   \<and> Draw \<notin> set (events_since (init_globals 0 True False) after_headless_tick)"
proof -
  have 1: "headless (mach (init_globals 0 True False))" by (simp add: init_globals_def)
  have 2: "events_since (init_globals 0 True False) after_headless_tick \<noteq> []"
    by (simp add: events_since_def init_globals_def after_headless_tick_def)
  show ?thesis
    using headless_never_draws [OF keeps_headless_test_host 1 headless_run, of after_headless_tick]
      keeps_headless_test_host [of False faulting_engine id] 1 2 headless_run
    by simp
qed

section \<open>The budget of the last slice, and calls that return\<close>

lemma autoadjust_sum:
  assumes "autoadjust d l b = Inr (c, e, l')"
  shows "l' = c + e \<and> INT_MIN \<le> c + e \<and> c + e \<le> INT_MAX"
proof -
  obtain c0 e0 where b: "b = (c0, e0)" by (cases b)
  from assms show ?thesis
    unfolding autoadjust_def b prod.case
    by (auto simp add: c_bind_def c_add_def c_int_def split: sum.splits if_splits prod.splits)
qed

lemma next_budget_sum:
  assumes "next_budget aa hz l dt = Inr (c, e, l')" "0 \<le> hz" "hz \<le> INT_MAX" "0 \<le> dt"
  shows "INT_MIN \<le> c + e \<and> c + e \<le> INT_MAX"
proof (cases aa)
  case True
  have d: "0 < clamp_dt dt" by (rule clamp_dt_pos [OF assms(4)])
  from assms(1) True next_budget_adaptive [OF assms(2,3) d, of l]
  have "autoadjust (clamp_dt dt) l
      (hz div 60 div clamp_dt dt, hz div 60 - hz div 60 div clamp_dt dt * clamp_dt dt) =
      Inr (c, e, l')" by simp
  from autoadjust_sum [OF this] show ?thesis by simp
next
  case False
  have d: "0 < clamp_dt dt" by (rule clamp_dt_pos [OF assms(4)])
  from assms(1) False next_budget_fixed [OF assms(2,3,4), of l]
  have "c = hz div 60 div clamp_dt dt"
    "e = hz div 60 - hz div 60 div clamp_dt dt * clamp_dt dt" by auto
  then show ?thesis
    using div60_bounds [OF assms(2,3) d] by (simp add: INT_MIN_def INT_MAX_def)
qed

lemma slice_budget_in_range:
  assumes "next_budget aa hz l dt = Inr (c, e, l')" "0 \<le> hz" "hz \<le> INT_MAX" "0 \<le> dt"
    "INT_MIN \<le> c" "c \<le> INT_MAX"
  shows "INT_MIN \<le> slice_budget (clamp_dt dt) c e i \<and> slice_budget (clamp_dt dt) c e i \<le> INT_MAX"
  using next_budget_sum [OF assms(1,2,3,4)] assms(5,6) by (simp add: slice_budget_def)

lemma for_slices_returns:
  assumes "makes_progress h" "\<And>j. slice_budget dt cpt ex j \<le> INT_MAX"
  shows "\<exists>s'. for_slices h dt cpt ex i s = Some s'"
proof (induction "nat (dt - i)" arbitrary: i s)
  case 0
  then have "\<not> i < dt" by simp
  then show ?case by (simp add: for_slices_stop)
next
  case (Suc k)
  then have i: "i < dt" by simp
  from while_cycles_terminates [OF assms(1) assms(2), of i i "rtc_update h i s"]
  obtain c' s1 where
    w: "while_cycles h i (slice_budget dt cpt ex i) (rtc_update h i s) = Some (c', s1)"
    by auto
  have "k = nat (dt - (i + 1))" using Suc.hyps(2) by simp
  from Suc.hyps(1) [OF this, of s1] obtain s' where
    "for_slices h dt cpt ex (i + 1) s1 = Some s'" by auto
  then show ?case using i w by (subst for_slices.simps) simp
qed

lemma main_loop_returns:
  assumes "makes_progress h" "\<not> EMSCRIPTEN h" "0 \<le> FOX32_CPU_HZ h" "FOX32_CPU_HZ h \<le> INT_MAX"
    and "0 \<le> fst (begin_tick h s)" "INT_MIN \<le> ticks s" "ticks s < INT_MAX"
  shows "\<exists>s'. main_loop h s = Some (Inr s')"
proof -
  obtain dt s1 where b: "begin_tick h s = (dt, s1)" by (metis surj_pair)
  with assms(5) have dt: "0 \<le> dt" by simp
  let ?d = "clamp_dt dt" and ?hz = "FOX32_CPU_HZ h"
  let ?c = "?hz div 60 div ?d" and ?e = "?hz div 60 - ?hz div 60 div ?d * ?d"
  have d: "0 < ?d" by (rule clamp_dt_pos [OF dt])
  have l: "last_cycle_count s1 = last_cycle_count s" "ticks s1 = ticks s"
    using begin_tick_trace [OF b] by simp_all
  have n: "next_budget (CYCLE_AUTOADJUST h) ?hz (last_cycle_count s1) dt =
      Inr (?c, ?e, last_cycle_count s1)"
    using assms(2) next_budget_fixed [OF assms(3,4) dt] by (simp add: CYCLE_AUTOADJUST_def)
  have "slice_budget ?d ?c ?e j \<le> INT_MAX" for j
    using div60_bounds [OF assms(3,4) d] by (simp add: slice_budget_def INT_MAX_def)
  from for_slices_returns [OF assms(1) this, of 0 s1]
  obtain s2 where f: "for_slices h ?d ?c ?e 0 s1 = Some s2"
    by auto
  have t: "ticks (interrupt_dispatch h s2) = ticks s"
    using interrupt_dispatch_frame [of h s2] for_slices_frame [OF f] l by simp
  have "c_add (ticks (interrupt_dispatch h s2)) 1 = Inr (ticks s + 1)"
    using assms(6,7) by (simp add: t c_add_def c_int_def INT_MIN_def)
  then have "\<exists>s'. poll_events h (interrupt_dispatch h s2) = Inr s'"
    by (simp add: poll_events_def c_bind_Inr split: prod.splits)
  then obtain s' where p: "poll_events h (interrupt_dispatch h s2) = Inr s'" by auto
  show ?thesis by (simp add: main_loop_def b n f p)
qed

lemma main_loop_returns_example:
  "\<exists>s'. main_loop (test_host False steady_engine id) (init_globals 16 False False) = Some (Inr s')"
  by (rule main_loop_returns)
     (simp_all add: makes_progress_steady test_host_simps begin_tick_test_host init_globals_def
        elapsed_ms_def INT_MIN_def INT_MAX_def)

section \<open>The slices that a tick starts\<close>





section \<open>Engines that keep to their budget\<close>

lemma progress_within_budget:
  assumes "within_budget h" "reports_progress h"
  shows "makes_progress h"
  unfolding makes_progress_def
proof (intro allI impI)
  fix m :: "'a machine" and n :: int
  assume n: "0 < n \<and> n \<le> INT_MAX"
  obtain e x m1 where r: "fox32_resume h m n = ((e, x), m1)" by (metis surj_pair)
  from assms(1) [unfolded within_budget_def, rule_format, OF n, of m]
  have "int (unat x) \<le> n" by (simp add: r)
  with n have "int (unat x) \<le> 2147483647" by (simp add: INT_MAX_def)
  then have "unat x \<le> 2147483648" by linarith
  then have u: "unat x \<le> 2 ^ 31" by simp
  from assms(2) [unfolded reports_progress_def, rule_format, OF n, of m]
  have "1 \<le> unat x
      \<or> (e \<noteq> FOX32_ERR_OK
          \<and> fst (fox32_recover h (if debug m1 then puts_strerr h m1 e else m1) e) \<noteq> FOX32_ERR_OK)"
    by (simp add: r)
  with u show "case fox32_resume h m n of
      ((e, x), m1) \<Rightarrow> (1 \<le> unat x \<and> unat x \<le> 2 ^ 31)
        \<or> (e \<noteq> FOX32_ERR_OK
            \<and> fst (fox32_recover h (if debug m1 then puts_strerr h m1 e else m1) e)
               \<noteq> FOX32_ERR_OK)"
    by (simp only: r prod.case) blast
qed

lemma while_cycles_recovering:
  assumes "0 < c" "c \<le> INT_MAX"
  shows "while_cycles (test_host ems faulting_engine (\<lambda>e. FOX32_ERR_OK)) i c s = None"
proof (rule ccontr)
  let ?h = "test_host ems faulting_engine (\<lambda>e. FOX32_ERR_OK)"
  assume "while_cycles ?h i c s \<noteq> None"
  then obtain c' s' where "while_cycles ?h i c s = Some (c', s')"
    by auto
  then have "\<not> (0 < c \<and> c \<le> INT_MAX)"
  proof (induction rule: while_cycles_cases)
    case (exit c s)
    then show ?case by simp
  next
    case (ok c s x m1 c' s')
    then show ?case by (simp add: test_host_simps faulting_engine_def)
  next
    case (fail c s e x m1 r m3)
    then show ?case by (simp add: test_host_simps faulting_engine_def)
  next
    case (recovered c s e x m1 m3 c' s')
    from recovered(2) have "x = 0" by (simp add: test_host_simps faulting_engine_def)
    with recovered(5) show ?case using sub_executed_0 [of c] by auto
  qed
  with assms show False by simp
qed

lemma within_budget_steady: "within_budget (test_host ems steady_engine rec)"
  unfolding within_budget_def
proof (intro allI impI)
  fix m :: "nat machine" and n :: int
  assume n: "0 < n \<and> n \<le> INT_MAX"
  then have "unat (word_of_int n :: 32 word) = nat n" by (simp add: unat_word_of_int_32)
  then show "int (unat (snd (fst (fox32_resume (test_host ems steady_engine rec) m n)))) \<le> n"
    using n by (simp add: test_host_simps steady_engine_def)
qed

lemma reports_progress_steady: "reports_progress (test_host ems steady_engine rec)"
  unfolding reports_progress_def
proof (intro allI impI)
  fix m :: "nat machine" and n :: int
  assume n: "0 < n \<and> n \<le> INT_MAX"
  then have "unat (word_of_int n :: 32 word) = nat n" by (simp add: unat_word_of_int_32)
  then show "case fox32_resume (test_host ems steady_engine rec) m n of
      ((e, x), m1) \<Rightarrow> 1 \<le> unat x
        \<or> (e \<noteq> FOX32_ERR_OK
            \<and> fst (fox32_recover (test_host ems steady_engine rec)
                 (if debug m1 then puts_strerr (test_host ems steady_engine rec) m1 e else m1) e)
               \<noteq> FOX32_ERR_OK)"
    using n by (simp add: test_host_simps steady_engine_def) linarith
qed



text \<open>
  C10. The inner loop of every millisecond slice ends when every call of \<^verbatim>\<open>fox32_resume\<close>
  either reports at least one executed cycle or returns a fault from which the recovery
  fails, for an engine that keeps to its contract and never reports more cycles than it
  was asked for. Without the precondition the loop need not end: with an engine that
  reports success and no executed cycle, and with one that returns a fault with no
  executed cycle from which the recovery succeeds, \<^verbatim>\<open>cycles_left\<close> stays where it is and
  the loop runs forever.
\<close>

theorem inner_loop_ends_when_progress_is_reported:
  "(within_budget h \<and> reports_progress h \<and> c \<le> INT_MAX \<longrightarrow>
      (\<exists>r. while_cycles h i c s = Some r))
   \<and> (0 < c' \<and> c' \<le> INT_MAX \<longrightarrow>
        sub_executed c' 0 = c'
      \<and> while_cycles (test_host ems idle_engine rec) i' c' s' = None
      \<and> while_cycles (test_host ems faulting_engine (\<lambda>e. FOX32_ERR_OK)) i' c' s' = None)"
  using while_cycles_terminates [OF progress_within_budget, of h c i s]
    while_cycles_idle [of c' ems rec i' s'] while_cycles_recovering [of c' ems i' s']
    sub_executed_0 [of c']
  by blast

theorem inner_loop_ends_when_progress_is_reported_witness:
  "within_budget (test_host False steady_engine id)
   \<and> reports_progress (test_host False steady_engine id) \<and> 5 \<le> INT_MAX
   \<and> (\<exists>r. while_cycles (test_host False steady_engine id) 0 5 (init_globals 0 False False) = Some r)
   \<and> (0::int) < 5
   \<and> sub_executed 5 0 = 5
   \<and> while_cycles (test_host False idle_engine id) 0 5 (init_globals 0 False False) = None
   \<and> while_cycles (test_host False faulting_engine (\<lambda>e. FOX32_ERR_OK)) 0 5
        (init_globals 0 False False) = None"
  using inner_loop_ends_when_progress_is_reported [of "test_host False steady_engine id" 5 0
      "init_globals 0 False False" 5 False id 0 "init_globals 0 False False"]
    within_budget_steady [of False id] reports_progress_steady [of False id]
  by (simp add: INT_MAX_def)

section \<open>Calls that return, whatever the mode\<close>

lemma int_of_float_range:
  assumes "int_of_float f = Inr c"
  shows "INT_MIN \<le> c \<and> c \<le> INT_MAX"
  using assms by (cases f) (auto simp add: Let_def split: if_splits)

lemma autoadjust_budget_le:
  assumes "autoadjust d l (c0, e0) = Inr (c, e, l')" "l \<le> INT_MAX" "c0 \<le> INT_MAX"
  shows "c \<le> INT_MAX"
proof -
  obtain tps where t: "measured_tps d = Inr tps"
    using assms(1) by (cases "measured_tps d") (simp_all add: autoadjust_def c_bind_Inl)
  show ?thesis
  proof (cases "TPS - CYCLE_AUTOADJUST_TOLERANCE < tps \<and> tps < TPS + CYCLE_AUTOADJUST_TOLERANCE")
    case True
    with assms(1) t have "c = l"
      by (auto simp add: autoadjust_def c_bind_def split: sum.splits)
    with assms(2) show ?thesis by simp
  next
    case band: False
    show ?thesis
    proof (cases "tps < TPS")
      case True
      with band assms(1) t have "recompute d l c0 = Inr c"
        by (auto simp add: autoadjust_def c_bind_def split: sum.splits)
      then show ?thesis
        using int_of_float_range by (simp add: recompute_def Let_def)
    next
      case False
      with band assms(1) t have "c = c0"
        by (auto simp add: autoadjust_def c_bind_def split: sum.splits)
      with assms(3) show ?thesis by simp
    qed
  qed
qed

lemma next_budget_le:
  assumes "next_budget aa hz l dt = Inr (c, e, l')" "0 \<le> hz" "hz \<le> INT_MAX" "0 \<le> dt"
    "l \<le> INT_MAX"
  shows "c \<le> INT_MAX"
proof -
  have d: "0 < clamp_dt dt" by (rule clamp_dt_pos [OF assms(4)])
  have c0: "hz div 60 div clamp_dt dt \<le> INT_MAX"
    using div60_bounds(2) [OF assms(2,3) d] by (simp add: INT_MAX_def)
  show ?thesis
  proof (cases aa)
    case True
    from assms(1) True next_budget_adaptive [OF assms(2,3) d, of l]
    have "autoadjust (clamp_dt dt) l
        (hz div 60 div clamp_dt dt, hz div 60 - hz div 60 div clamp_dt dt * clamp_dt dt) =
        Inr (c, e, l')" by simp
    from autoadjust_budget_le [OF this assms(5) c0] show ?thesis .
  next
    case False
    from assms(1) False next_budget_fixed [OF assms(2,3,4), of l]
    have "c = hz div 60 div clamp_dt dt" by auto
    with c0 show ?thesis by simp
  qed
qed

lemma main_loop_returns_budget:
  assumes "makes_progress h"
    and "next_budget (CYCLE_AUTOADJUST h) (FOX32_CPU_HZ h) (last_cycle_count s)
           (fst (begin_tick h s)) = Inr b"
    and "0 \<le> FOX32_CPU_HZ h" "FOX32_CPU_HZ h \<le> INT_MAX" "0 \<le> fst (begin_tick h s)"
    and "last_cycle_count s \<le> INT_MAX" "INT_MIN \<le> ticks s" "ticks s < INT_MAX"
  shows "\<exists>s'. main_loop h s = Some (Inr s')"
proof -
  obtain dt s1 where bt: "begin_tick h s = (dt, s1)" by (metis surj_pair)
  obtain cpt ex l' where b: "b = (cpt, ex, l')" by (cases b)
  have l: "last_cycle_count s1 = last_cycle_count s" "ticks s1 = ticks s"
    using begin_tick_trace [OF bt] by simp_all
  have n: "next_budget (CYCLE_AUTOADJUST h) (FOX32_CPU_HZ h) (last_cycle_count s) dt =
      Inr (cpt, ex, l')"
    using assms(2) bt b by simp
  have dt: "0 \<le> dt" using assms(5) bt by simp
  have c: "cpt \<le> INT_MAX" by (rule next_budget_le [OF n assms(3,4) dt assms(6)])
  have "cpt + ex \<le> INT_MAX" using next_budget_sum [OF n assms(3,4) dt] by simp
  with c have "slice_budget (clamp_dt dt) cpt ex j \<le> INT_MAX" for j
    by (simp add: slice_budget_def)
  from for_slices_returns [OF assms(1) this, of 0 "s1\<lparr>last_cycle_count := l'\<rparr>"]
  obtain s2 where f: "for_slices h (clamp_dt dt) cpt ex 0 (s1\<lparr>last_cycle_count := l'\<rparr>) = Some s2"
    by auto
  have t: "ticks (interrupt_dispatch h s2) = ticks s"
    using interrupt_dispatch_frame [of h s2] for_slices_frame [OF f] l by simp
  have "c_add (ticks (interrupt_dispatch h s2)) 1 = Inr (ticks s + 1)"
    using assms(7,8) by (simp add: t c_add_def c_int_def INT_MIN_def)
  then have "\<exists>s'. poll_events h (interrupt_dispatch h s2) = Inr s'"
    by (simp add: poll_events_def c_bind_Inr split: prod.splits)
  then obtain s' where p: "poll_events h (interrupt_dispatch h s2) = Inr s'" by auto
  show ?thesis by (simp add: main_loop_def bt l n f p)
qed


section \<open>A failed recovery\<close>






section \<open>The vertical-sync interrupt\<close>

lemma while_cycles_counts:
  assumes "while_cycles h i c s = Some (c', s')" "counts_raises h"
  shows "world (mach s') = world (mach s)"
  using assms(1)
proof (induction rule: while_cycles_cases)
  case (exit c s)
  show ?case by simp
next
  case (ok c s x m1 c' s')
  have "world m1 = world (mach s)"
    using assms(2) ok(2) unfolding counts_raises_def by (metis snd_conv)
  then show ?case using ok(3) by simp
next
  case (fail c s e x m1 r m3)
  have 1: "world m1 = world (mach s)"
    using assms(2) fail(2) unfolding counts_raises_def by (metis snd_conv)
  have 2: "world (if debug m1 then puts_strerr h m1 e else m1) = world m1"
    using assms(2) unfolding counts_raises_def by simp
  have "world m3 = world (if debug m1 then puts_strerr h m1 e else m1)"
    using assms(2) fail(4) unfolding counts_raises_def by (metis snd_conv)
  then show ?case using 1 2 by simp
next
  case (recovered c s e x m1 m3 c' s')
  have 1: "world m1 = world (mach s)"
    using assms(2) recovered(2) unfolding counts_raises_def by (metis snd_conv)
  have 2: "world (if debug m1 then puts_strerr h m1 e else m1) = world m1"
    using assms(2) unfolding counts_raises_def by simp
  have "world m3 = world (if debug m1 then puts_strerr h m1 e else m1)"
    using assms(2) recovered(4) unfolding counts_raises_def by (metis snd_conv)
  then show ?case using 1 2 recovered(5) by simp
qed

lemma rtc_update_counts:
  assumes "counts_raises h"
  shows "world (mach (rtc_update h i s)) = world (mach s)"
proof -
  have 1: "world (snd (SDL_GetTicks h m)) = world m" for m
    using assms unfolding counts_raises_def by simp
  have 2: "world (snd (time_NULL h m)) = world m" for m
    using assms unfolding counts_raises_def by simp
  show ?thesis
  proof (cases "CYCLE_AUTOADJUST h")
    case True
    obtain t m where g: "SDL_GetTicks h (mach s) = (t, m)" by (metis surj_pair)
    obtain t' m' where n: "time_NULL h (m\<lparr>rtc_uptime := t\<rparr>) = (t', m')" by (metis surj_pair)
    have "world m = world (mach s)" using 1 [of "mach s"] g by simp
    moreover have "world m' = world (m\<lparr>rtc_uptime := t\<rparr>)"
      using 2 [of "m\<lparr>rtc_uptime := t\<rparr>"] n by simp
    ultimately show ?thesis using True g n by (simp add: rtc_update_def)
  next
    case False
    obtain t' m' where n: "time_NULL h ((mach s)\<lparr>rtc_uptime := rtc_uptime (mach s) + 1\<rparr>) = (t', m')"
      by (metis surj_pair)
    have "world m' = world ((mach s)\<lparr>rtc_uptime := rtc_uptime (mach s) + 1\<rparr>)"
      using 2 [of "(mach s)\<lparr>rtc_uptime := rtc_uptime (mach s) + 1\<rparr>"] n by simp
    then show ?thesis using False n by (simp add: rtc_update_def)
  qed
qed

lemma for_slices_counts:
  assumes "for_slices h dt cpt ex i s = Some s'" "counts_raises h"
  shows "world (mach s') = world (mach s)"
  using assms(1)
proof (induction rule: for_slices_cases)
  case (stop i s)
  show ?case by simp
next
  case (slice i s c' s1)
  show ?case
    using while_cycles_counts [OF slice(2) assms(2)] rtc_update_counts [OF assms(2), of i s]
      slice(4) by simp
qed

lemma interrupt_dispatch_mach:
  "mach (interrupt_dispatch h s) =
   (fox32_raise h (if headless (mach s) then mach s else ScreenDraw h (mach s))
      (VSYNC_INTERRUPT_VECTOR h))\<lparr>halted := False\<rparr>"
  by (simp add: interrupt_dispatch_def TPF_eq tmod_1 Let_def)

lemma interrupt_dispatch_counts:
  assumes "counts_raises h"
  shows "world (mach (interrupt_dispatch h s)) = Suc (world (mach s))"
proof -
  have 1: "world (fox32_raise h m v) = Suc (world m)" for m v
    using assms unfolding counts_raises_def by simp
  have 2: "world (ScreenDraw h m) = world m" for m
    using assms unfolding counts_raises_def by simp
  show ?thesis by (simp add: interrupt_dispatch_mach 1 2)
qed

lemma begin_tick_counts:
  assumes "begin_tick h s = (dt, s1)" "counts_raises h"
  shows "world (mach s1) = world (mach s)"
proof -
  have 1: "world (snd (SDL_GetTicks h m)) = world m" for m
    using assms(2) unfolding counts_raises_def by simp
  have 2: "world (emscripten_cancel_main_loop h m) = world m" for m
    using assms(2) unfolding counts_raises_def by simp
  let ?s0 = "if EMSCRIPTEN h \<and> (done_flag s \<or> bus_requests_exit h (mach s))
             then s\<lparr>mach := emscripten_cancel_main_loop h (mach s),
                    trace := trace s @ [CancelMainLoop]\<rparr> else s"
  have 0: "world (mach ?s0) = world (mach s)" using 2 by simp
  obtain n1 m1 where g1: "SDL_GetTicks h (mach ?s0) = (n1, m1)" by (metis surj_pair)
  obtain n2 m2 where g2: "SDL_GetTicks h m1 = (n2, m2)" by (metis surj_pair)
  have "world m1 = world (mach ?s0)" using 1 [of "mach ?s0"] g1 by simp
  moreover have "world m2 = world m1" using 1 [of m1] g2 by simp
  moreover have "mach s1 = m2" using assms(1) g1 g2 by (auto simp add: begin_tick_def Let_def)
  ultimately show ?thesis using 0 by simp
qed

lemma main_loop_counts:
  assumes "main_loop h s = Some (Inr s')" "counts_raises h"
  shows "world (mach s') = Suc (world (mach s))"
proof -
  from main_loop_split [OF assms(1)] obtain dt s1 cpt ex l' s2 where
    b: "begin_tick h s = (dt, s1)"
    and f: "for_slices h (clamp_dt dt) cpt ex 0 (s1\<lparr>last_cycle_count := l'\<rparr>) = Some s2"
    and p: "poll_events h (interrupt_dispatch h s2) = Inr s'"
    by blast
  have "world (mach s2) = world (mach s)"
    using for_slices_counts [OF f assms(2)] begin_tick_counts [OF b assms(2)] by simp
  then have "world (mach (interrupt_dispatch h s2)) = Suc (world (mach s))"
    by (simp add: interrupt_dispatch_counts [OF assms(2)])
  moreover have "world (snd (ScreenProcessEvents h m)) = world m" for m
    using assms(2) unfolding counts_raises_def by simp
  ultimately show ?thesis using poll_events_Inr [OF p] by simp
qed

lemma main_loop_raises:
  assumes "main_loop h s = Some (Inr s')"
  shows "raises (events_since s s') = [Raise (VSYNC_INTERRUPT_VECTOR h)]"
proof -
  from main_loop_trace [OF assms] obtain dt cpt ex evs hl where
    t: "tick_events (clamp_dt dt) (slice_budget (clamp_dt dt) cpt ex) 0 evs"
    and e: "events_since s s' =
         (if EMSCRIPTEN h \<and> (done_flag s \<or> bus_requests_exit h (mach s))
          then [CancelMainLoop] else [])
         @ evs @ (if hl then [] else [Draw])
         @ [Raise (VSYNC_INTERRUPT_VECTOR h), ProcessEvents]"
    by blast
  have "raises evs = []" using tick_events_no_draw_raise [OF t] by simp
  then show ?thesis by (simp add: e raises_append) (simp add: raises_def)
qed

subsection \<open>A tick with the host that counts the raises\<close>

lemma raise_counting_host_simps:
  "EMSCRIPTEN raise_counting_host = False"
  "FOX32_CPU_HZ raise_counting_host = 64000000"
  "VSYNC_INTERRUPT_VECTOR raise_counting_host = 255"
  "SDL_GetTicks raise_counting_host m = (2, m)"
  "time_NULL raise_counting_host m = (int (world m) div 1000, m)"
  "fox32_resume raise_counting_host m n = ((FOX32_ERR_OTHER 1, 0), m)"
  "puts_strerr raise_counting_host m e = m"
  "fox32_recover raise_counting_host m e = (e, m)"
  "fox32_raise raise_counting_host m v = m\<lparr>world := Suc (world m)\<rparr>"
  "ScreenDraw raise_counting_host m = m"
  "ScreenProcessEvents raise_counting_host m = (False, m)"
  "bus_requests_exit raise_counting_host m = False"
  "emscripten_cancel_main_loop raise_counting_host m = m"
  by (simp_all add: raise_counting_host_def test_host_def faulting_engine_def)

lemma counts_raises_host: "counts_raises raise_counting_host"
  by (simp add: counts_raises_def raise_counting_host_simps)

lemma makes_progress_counting: "makes_progress raise_counting_host"
  by (simp add: makes_progress_def raise_counting_host_simps)

lemma while_cycles_counting:
  assumes "0 < c" "\<not> debug (mach s)"
  shows "while_cycles raise_counting_host i c s =
         Some (c, s\<lparr>trace := trace s @
                  [Resume i c 0 (FOX32_ERR_OTHER 1), Recover i (FOX32_ERR_OTHER 1)]\<rparr>)"
  using while_cycles_fault [where h = raise_counting_host and s = s and c = c
      and e = "FOX32_ERR_OTHER 1" and x = 0 and ?m1.0 = "mach s" and r = "FOX32_ERR_OTHER 1"
      and ?m3.0 = "mach s" and i = i] assms
  by (simp add: raise_counting_host_simps)

lemma rtc_update_counting:
  "rtc_update raise_counting_host i s =
   s\<lparr>mach := (mach s)\<lparr>rtc_uptime := rtc_uptime (mach s) + 1,
                         rtc_time := int (world (mach s)) div 1000\<rparr>,
      trace := trace s @ [RtcUpdate i]\<rparr>"
  by (simp add: rtc_update_def CYCLE_AUTOADJUST_def raise_counting_host_simps)

lemma for_slices_counting:
  assumes "i < dt" "0 < slice_budget dt cpt ex i" "\<not> debug (mach s)"
  shows "for_slices raise_counting_host dt cpt ex i s =
         for_slices raise_counting_host dt cpt ex (i + 1)
           (s\<lparr>mach := (mach s)\<lparr>rtc_uptime := rtc_uptime (mach s) + 1,
                                 rtc_time := int (world (mach s)) div 1000\<rparr>,
              trace := trace s @ [RtcUpdate i,
                Resume i (slice_budget dt cpt ex i) 0 (FOX32_ERR_OTHER 1),
                Recover i (FOX32_ERR_OTHER 1)]\<rparr>)"
  by (subst for_slices.simps)
     (simp add: assms rtc_update_counting while_cycles_counting [OF assms(2)])

lemma counting_slices:
  assumes "\<not> debug (mach s)"
  shows "for_slices raise_counting_host 2 533333 0 0 s =
   Some (s\<lparr>mach := (mach s)\<lparr>rtc_uptime := rtc_uptime (mach s) + 2,
                            rtc_time := int (world (mach s)) div 1000\<rparr>,
      trace := trace s @
               [RtcUpdate 0, Resume 0 533333 0 (FOX32_ERR_OTHER 1), Recover 0 (FOX32_ERR_OTHER 1),
                RtcUpdate 1, Resume 1 533333 0 (FOX32_ERR_OTHER 1), Recover 1 (FOX32_ERR_OTHER 1)]\<rparr>)"
  using assms by (simp add: for_slices_counting for_slices_stop slice_budget_def)

lemma begin_tick_counting:
  "begin_tick raise_counting_host s = (elapsed_ms 2 (tick_start s), s\<lparr>tick_start := 2\<rparr>)"
  by (simp add: begin_tick_def raise_counting_host_simps)

lemma counted_tick:
  "main_loop raise_counting_host (init_globals 0 False True) = Some (Inr after_counted_tick)"
proof -
  let ?h = "raise_counting_host"
  let ?s1 = "(init_globals 0 False True)\<lparr>tick_start := 2, last_cycle_count := 1\<rparr>"
  have b: "begin_tick ?h (init_globals 0 False True) =
      (2, (init_globals 0 False True)\<lparr>tick_start := 2\<rparr>)"
    by (simp add: begin_tick_counting init_globals_def elapsed_ms_2)
  have f: "for_slices ?h 2 533333 0 0 ?s1 =
      Some (?s1\<lparr>mach := (mach ?s1)\<lparr>rtc_uptime := rtc_uptime (mach ?s1) + 2,
                            rtc_time := int (world (mach ?s1)) div 1000\<rparr>,
        trace := trace ?s1 @
               [RtcUpdate 0, Resume 0 533333 0 (FOX32_ERR_OTHER 1), Recover 0 (FOX32_ERR_OTHER 1),
                RtcUpdate 1, Resume 1 533333 0 (FOX32_ERR_OTHER 1), Recover 1 (FOX32_ERR_OTHER 1)]\<rparr>)"
    by (rule counting_slices) (simp add: init_globals_def)
  show ?thesis
    apply (simp only: main_loop_def b prod.case CYCLE_AUTOADJUST_def raise_counting_host_simps)
    apply (simp add: init_globals_def next_budget_2 clamp_dt_def)
    apply (simp only: f [unfolded init_globals_def, simplified])
    apply (simp add: interrupt_dispatch_def poll_events_def TPF_eq tmod_1 raise_counting_host_simps
        c_add_def c_int_def c_bind_Inr INT_MIN_def INT_MAX_def faulting_tick_events_def
        after_counted_tick_def init_globals_def)
    done
qed

lemma counted_tick_budget:
  "next_budget (CYCLE_AUTOADJUST raise_counting_host) (FOX32_CPU_HZ raise_counting_host)
     (last_cycle_count (init_globals 0 False True))
     (fst (begin_tick raise_counting_host (init_globals 0 False True))) =
   Inr (533333, 0, 1)"
  by (simp add: CYCLE_AUTOADJUST_def raise_counting_host_simps begin_tick_counting
      init_globals_def elapsed_ms_2 next_budget_2)

lemma counted_tick_inputs:
  "0 \<le> FOX32_CPU_HZ raise_counting_host"
  "FOX32_CPU_HZ raise_counting_host \<le> INT_MAX"
  "0 \<le> fst (begin_tick raise_counting_host (init_globals 0 False True))"
  "last_cycle_count (init_globals 0 False True) \<le> INT_MAX"
  "INT_MIN \<le> ticks (init_globals 0 False True)"
  "ticks (init_globals 0 False True) < INT_MAX"
  by (simp_all add: raise_counting_host_simps begin_tick_counting init_globals_def elapsed_ms_2
      INT_MIN_def INT_MAX_def)

lemma counted_dispatch:
  "mach (interrupt_dispatch raise_counting_host (init_globals 0 False True)) =
   (mach (init_globals 0 False True))\<lparr>halted := False, world := 1\<rparr>"
  by (simp add: interrupt_dispatch_mach raise_counting_host_simps init_globals_def)

text \<open>
  C6. The interrupt dispatch of lines 219 to 224 (\<^verbatim>\<open>TPF\<close> is 1, so it runs in every
  tick) calls \<^verbatim>\<open>fox32_raise\<close> once, with the vertical-sync vector, on the machine as the
  draw request (made when not headless) left it, and sets \<^verbatim>\<open>vm.halted\<close> to false after the
  call, whatever it was before. A call of \<^verbatim>\<open>main_loop\<close> that returns has raised the
  vertical-sync vector exactly once and no other vector: on a host whose \<open>world\<close> counts the
  calls of \<^verbatim>\<open>fox32_raise\<close> the count after the call is one more than before it. The call
  returns when every call of \<^verbatim>\<open>fox32_resume\<close> makes progress or ends in a failed
  recovery, the budget computation has a defined result, and the elapsed time is not
  negative.
\<close>

theorem vsync_raised_once_and_unhalts:
  "mach (interrupt_dispatch h s0) =
     (fox32_raise h (if headless (mach s0) then mach s0 else ScreenDraw h (mach s0))
        (VSYNC_INTERRUPT_VECTOR h))\<lparr>halted := False\<rparr>
   \<and> \<not> halted (mach (interrupt_dispatch h s0))
   \<and> raises (events_since s0 (interrupt_dispatch h s0)) = [Raise (VSYNC_INTERRUPT_VECTOR h)]
   \<and> (main_loop h s = Some (Inr s') \<longrightarrow>
        raises (events_since s s') = [Raise (VSYNC_INTERRUPT_VECTOR h)])
   \<and> (counts_raises k \<and> main_loop k t = Some (Inr t') \<longrightarrow>
        world (mach t') = Suc (world (mach t)))
   \<and> (makes_progress h
      \<and> next_budget (CYCLE_AUTOADJUST h) (FOX32_CPU_HZ h) (last_cycle_count s)
          (fst (begin_tick h s)) = Inr b
      \<and> 0 \<le> FOX32_CPU_HZ h \<and> FOX32_CPU_HZ h \<le> INT_MAX \<and> 0 \<le> fst (begin_tick h s)
      \<and> last_cycle_count s \<le> INT_MAX \<and> INT_MIN \<le> ticks s \<and> ticks s < INT_MAX
      \<longrightarrow> (\<exists>s2. main_loop h s = Some (Inr s2)))"
proof -
  have "raises (events_since s0 (interrupt_dispatch h s0)) = [Raise (VSYNC_INTERRUPT_VECTOR h)]"
    by (simp add: events_since_def interrupt_dispatch_trace raises_def)
  then show ?thesis
    using interrupt_dispatch_mach [of h s0] interrupt_dispatch_halted [of h s0]
      main_loop_raises [of h s s'] main_loop_counts [of k t t']
      main_loop_returns_budget [of h s b]
    by blast
qed

theorem vsync_raised_once_and_unhalts_witness:
  "halted (mach (init_globals 0 False True))
   \<and> mach (interrupt_dispatch raise_counting_host (init_globals 0 False True)) =
       (mach (init_globals 0 False True))\<lparr>halted := False, world := 1\<rparr>
   \<and> \<not> halted (mach (interrupt_dispatch raise_counting_host (init_globals 0 False True)))
   \<and> raises (events_since (init_globals 0 False True)
               (interrupt_dispatch raise_counting_host (init_globals 0 False True))) = [Raise 255]
   \<and> main_loop raise_counting_host (init_globals 0 False True) = Some (Inr after_counted_tick)
   \<and> raises (events_since (init_globals 0 False True) after_counted_tick) = [Raise 255]
   \<and> counts_raises raise_counting_host
   \<and> world (mach (init_globals 0 False True)) = 0
   \<and> world (mach after_counted_tick) = 1
   \<and> \<not> halted (mach after_counted_tick)
   \<and> makes_progress raise_counting_host
   \<and> next_budget (CYCLE_AUTOADJUST raise_counting_host) (FOX32_CPU_HZ raise_counting_host)
        (last_cycle_count (init_globals 0 False True))
        (fst (begin_tick raise_counting_host (init_globals 0 False True))) =
      Inr (533333, 0, 1)
   \<and> (\<exists>s2. main_loop raise_counting_host (init_globals 0 False True) = Some (Inr s2))"
proof -
  let ?h = "raise_counting_host" and ?s = "init_globals 0 False True"
  note t = vsync_raised_once_and_unhalts [where h = ?h and ?s0.0 = ?s and s = ?s
      and s' = after_counted_tick and k = ?h and t = ?s and t' = after_counted_tick
      and b = "(533333, 0, 1)"]
  have 0: "halted (mach ?s)" "world (mach ?s) = 0" by (simp_all add: init_globals_def)
  from t [THEN conjunct1]
  have 1: "mach (interrupt_dispatch ?h ?s) = (mach ?s)\<lparr>halted := False, world := 1\<rparr>"
    by (simp add: raise_counting_host_simps init_globals_def)
  from t [THEN conjunct2, THEN conjunct1]
  have 2: "\<not> halted (mach (interrupt_dispatch ?h ?s))" .
  from t [THEN conjunct2, THEN conjunct2, THEN conjunct1]
  have 3: "raises (events_since ?s (interrupt_dispatch ?h ?s)) = [Raise 255]"
    by (simp only: raise_counting_host_simps)
  have m: "main_loop ?h ?s = Some (Inr after_counted_tick)" by (rule counted_tick)
  from t [THEN conjunct2, THEN conjunct2, THEN conjunct2, THEN conjunct1, rule_format, OF m]
  have 4: "raises (events_since ?s after_counted_tick) = [Raise 255]"
    by (simp only: raise_counting_host_simps)
  from t [THEN conjunct2, THEN conjunct2, THEN conjunct2, THEN conjunct2, THEN conjunct1,
      rule_format, OF conjI [OF counts_raises_host m]]
  have 5: "world (mach after_counted_tick) = 1" by (simp add: 0(2))
  have 6: "\<not> halted (mach after_counted_tick)" by (simp add: after_counted_tick_def)
  from t [THEN conjunct2, THEN conjunct2, THEN conjunct2, THEN conjunct2, THEN conjunct2,
      rule_format] makes_progress_counting counted_tick_budget counted_tick_inputs
  have 7: "\<exists>s2. main_loop ?h ?s = Some (Inr s2)" by blast
  from 0(1) 1 2 3 m 4 counts_raises_host 0(2) 5 6 makes_progress_counting counted_tick_budget 7
  show ?thesis by (intro conjI)
qed

end
